theory Spec2Isabelle
  imports Complex_Main
begin

section \<open>JavaScript strings and values\<close>

text \<open>
  URLs, search terms and header values are JavaScript strings. They are modelled as
  \<open>string\<close>; the operations below are the ones the sources call on them.
  A value that may be \<open>null\<close> or \<open>undefined\<close> is an \<open>option\<close>.
\<close>

text \<open>\<open>s.startsWith(p)\<close>\<close>

fun startsWith :: "string \<Rightarrow> string \<Rightarrow> bool" where
  "startsWith s [] = True"
| "startsWith [] (p # ps) = False"
| "startsWith (c # cs) (p # ps) = (c = p \<and> startsWith cs ps)"

text \<open>\<open>s.includes(sub)\<close>\<close>

fun str_includes :: "string \<Rightarrow> string \<Rightarrow> bool" where
  "str_includes [] sub = (sub = [])"
| "str_includes (c # cs) sub = (startsWith (c # cs) sub \<or> str_includes cs sub)"

text \<open>\<open>s.endsWith(suf)\<close>\<close>

definition endsWith :: "string \<Rightarrow> string \<Rightarrow> bool" where
  "endsWith s suf = startsWith (rev s) (rev suf)"

text \<open>
  \<open>s.toLowerCase()\<close> on the ASCII range: the letters \<open>A\<close> to \<open>Z\<close> move to
  \<open>a\<close> to \<open>z\<close>, every other character stays.
\<close>

definition lower_char :: "char \<Rightarrow> char" where
  "lower_char c =
     (case map_of (zip ''ABCDEFGHIJKLMNOPQRSTUVWXYZ'' ''abcdefghijklmnopqrstuvwxyz'') c of
        None \<Rightarrow> c
      | Some l \<Rightarrow> l)"

definition toLowerCase :: "string \<Rightarrow> string" where
  "toLowerCase s = map lower_char s"

text \<open>Truthiness of a string value that may be null: null and the empty string are falsy.\<close>

fun truthy :: "string option \<Rightarrow> bool" where
  "truthy None = False"
| "truthy (Some s) = (s \<noteq> [])"

section \<open>Content classifier: the route \<open>/api/verify-video\<close> and its client\<close>

text \<open>
  What the network answers to a HEAD request on a URL: nothing (connection failure,
  timeout), or a status with the \<open>content-type\<close> header and the \<open>location\<close> header
  when the answer carries them. The location is the URL a client that follows the
  redirect requests next.
\<close>

datatype http_answer = No_answer | Answer nat "string option" "string option"

text \<open>
  The HTTP client of the route is called with its defaults, so it follows redirects: an
  answer with a status from 300 to 399 and a location makes it request the location, for
  as long as the number of redirects stays within its limit; one redirect more and the
  request fails. The limit is a default of the library and not in the source; it is a
  parameter here (\<open>left\<close> counts the redirects still allowed).
\<close>

fun follow_redirects ::
  "(string \<Rightarrow> http_answer) \<Rightarrow> nat \<Rightarrow> string \<Rightarrow> (nat \<times> string option) option" where
  "follow_redirects net 0 url =
     (case net url of
        No_answer \<Rightarrow> None
      | Answer status ct location \<Rightarrow>
          (if 300 \<le> status \<and> status < 400 \<and> truthy location then None
           else Some (status, ct)))"
| "follow_redirects net (Suc left) url =
     (case net url of
        No_answer \<Rightarrow> None
      | Answer status ct location \<Rightarrow>
          (if 300 \<le> status \<and> status < 400 \<and> truthy location
           then follow_redirects net left (the location)
           else Some (status, ct)))"

text \<open>
  The client rejects the answer it ends on when its status is outside 200..299, so the
  \<open>try\<close> block sees a response only for those.
\<close>

definition axios_head ::
  "(string \<Rightarrow> http_answer) \<Rightarrow> nat \<Rightarrow> string \<Rightarrow> (nat \<times> string option) option" where
  "axios_head net maxRedirects url =
     (case follow_redirects net maxRedirects url of
        None \<Rightarrow> None
      | Some (status, ct) \<Rightarrow>
          (if 200 \<le> status \<and> status < 300 then Some (status, ct) else None))"

text \<open>\<open>response.headers['content-type'] || ''\<close>\<close>

fun header_or_empty :: "string option \<Rightarrow> string" where
  "header_or_empty None = []"
| "header_or_empty (Some h) = h"

datatype verify_reply = Verify_400 string | Verify_200 bool

definition verify_video_route ::
  "nat \<Rightarrow> (string \<Rightarrow> http_answer) \<Rightarrow> string \<Rightarrow> verify_reply" where
  "verify_video_route maxRedirects net url =
     (if url = [] then Verify_400 ''URL required''
      else case axios_head net maxRedirects url of
        None \<Rightarrow> Verify_200 False
      | Some (status, ct) \<Rightarrow>
          (let contentType = header_or_empty ct;
               isVideo = (str_includes contentType ''video'' \<or> str_includes url ''.mp4''
                          \<or> str_includes url ''.webm'')
           in Verify_200 (isVideo \<and> status = 200)))"

text \<open>
  What a client function gets back from \<open>fetch\<close> on the application's own server: the
  request failed (the promise rejected), or the reply of the route.
\<close>

datatype 'r fetched = Fetch_error | Fetched 'r

text \<open>
  The client \<open>verifyVideo\<close>: a failed request and a reply that is not ok give false,
  otherwise the \<open>valid\<close> field of the reply.
\<close>

fun verifyVideo :: "verify_reply fetched \<Rightarrow> bool" where
  "verifyVideo Fetch_error = False"
| "verifyVideo (Fetched (Verify_400 e)) = False"
| "verifyVideo (Fetched (Verify_200 v)) = v"

text \<open>
  The classifier as the specification words it, on the answer the request ends on: the
  resource answers successfully, and its declared media type indicates video or the path
  of the URL (the URL up to its query or fragment) has a video file extension.
\<close>

definition url_path :: "string \<Rightarrow> string" where
  "url_path url = takeWhile (\<lambda>c. c \<noteq> CHR ''?'' \<and> c \<noteq> CHR ''#'') url"

definition has_video_extension :: "string \<Rightarrow> bool" where
  "has_video_extension url =
     (endsWith (url_path url) ''.mp4'' \<or> endsWith (url_path url) ''.webm'')"

definition spec_classify :: "string \<Rightarrow> (nat \<times> string option) option \<Rightarrow> bool" where
  "spec_classify url final =
     (case final of
        None \<Rightarrow> False
      | Some (status, ct) \<Rightarrow>
          200 \<le> status \<and> status < 300
          \<and> (str_includes (header_or_empty ct) ''video'' \<or> has_video_extension url))"

text \<open>
  A chain of redirects: from \<open>url\<close> through the locations \<open>hops\<close>, each answered with a
  redirect to the next, ending at the last of them (at \<open>url\<close> itself when there are
  none).
\<close>

fun redirect_chain :: "(string \<Rightarrow> http_answer) \<Rightarrow> string \<Rightarrow> string list \<Rightarrow> string \<Rightarrow> bool" where
  "redirect_chain net url [] final = (url = final)"
| "redirect_chain net url (hop # hops) final =
     (case net url of
        No_answer \<Rightarrow> False
      | Answer status ct location \<Rightarrow>
          300 \<le> status \<and> status < 400 \<and> truthy location \<and> the location = hop
          \<and> redirect_chain net hop hops final)"

text \<open>
  A network that answers every URL the same, and one that redirects a single URL to
  another and answers every other URL the same.
\<close>

definition static_net :: "http_answer \<Rightarrow> string \<Rightarrow> http_answer" where
  "static_net a url = a"

definition redirecting_net :: "string \<Rightarrow> string \<Rightarrow> http_answer \<Rightarrow> string \<Rightarrow> http_answer" where
  "redirecting_net source target a url =
     (if url = source then Answer 302 None (Some target) else a)"

section \<open>Scene pipeline: \<open>handleGenerate\<close> and \<open>handleExport\<close>\<close>

record scene =
  imagePrompt :: string
  narration :: string
  overlayText :: string
  videoUrl :: "string option"

record short_project =
  project_id :: string
  title :: string
  scenes :: "scene list"
  timestamp :: nat
  finalVideoUrl :: "string option"

text \<open>
  The application reaches the outside through four calls: \<open>generateSceneVideo\<close>,
  \<open>verifyVideo\<close>, \<open>mergeVideos\<close> and the browser's \<open>confirm\<close>. None of them throws
  (each client function catches and returns null or false). What they answer depends on
  the world \<open>'w\<close> at the moment of the call, and a call may change the world.
\<close>

record 'w services =
  resolve :: "string \<Rightarrow> 'w \<Rightarrow> string option \<times> 'w"
  verify :: "string \<Rightarrow> 'w \<Rightarrow> bool \<times> 'w"
  confirm :: "nat \<Rightarrow> nat \<Rightarrow> 'w \<Rightarrow> bool \<times> 'w"
  merge :: "string list \<Rightarrow> 'w \<Rightarrow> string option \<times> 'w"

text \<open>The calls the application makes, in the order it makes them.\<close>

datatype call =
    Resolve_call string
  | Verify_call string
  | Delay_call nat
  | Alert_call string
  | Confirm_call nat nat
  | Merge_call "string list"

type_synonym 'w run = "'w \<times> call list"

definition maxAttempts :: nat where
  "maxAttempts = 2"

text \<open>
  The \<open>while\<close> loop of \<open>handleGenerate\<close> for scene number \<open>i\<close>:
  \<open>while (!foundValidVideo && attempts < maxAttempts)\<close>.
\<close>

function gen_attempts ::
  "'w services \<Rightarrow> nat \<Rightarrow> scene \<Rightarrow> bool \<Rightarrow> nat \<Rightarrow> 'w run \<Rightarrow> scene \<times> 'w run" where
  "gen_attempts sv i sc foundValidVideo attempts (w, tr) =
     (if \<not> foundValidVideo \<and> attempts < maxAttempts then
        (let attempts' = attempts + 1;
             tr0 = (if i > 0 \<or> attempts' > 1 then tr @ [Delay_call 2000] else tr);
             (url, w1) = resolve sv (imagePrompt sc) w;
             tr1 = tr0 @ [Resolve_call (imagePrompt sc)]
         in if truthy url then
              (let (isValid, w2) = verify sv (the url) w1;
                   tr2 = tr1 @ [Verify_call (the url)]
               in if isValid
                  then gen_attempts sv i (sc\<lparr>videoUrl := url\<rparr>) True attempts' (w2, tr2)
                  else gen_attempts sv i sc False attempts' (w2, tr2))
            else gen_attempts sv i sc False attempts' (w1, tr1))
      else (sc, (w, tr)))"
  by pat_completeness auto
termination
  by (relation "measure (\<lambda>(sv, i, sc, found, attempts, r). maxAttempts - attempts)")
     (auto simp: maxAttempts_def)

text \<open>The \<open>for\<close> loop of \<open>handleGenerate\<close> over the scenes, from scene number \<open>i\<close> on.\<close>

fun generate_scenes :: "'w services \<Rightarrow> nat \<Rightarrow> scene list \<Rightarrow> 'w run \<Rightarrow> scene list \<times> 'w run" where
  "generate_scenes sv i [] r = ([], r)"
| "generate_scenes sv i (sc # rest) r =
     (let (sc', r1) = gen_attempts sv i sc False 0 r;
          (rest', r2) = generate_scenes sv (i + 1) rest r1
      in (sc' # rest', r2))"

text \<open>\<open>handleRegenerateScene\<close>: one resolve, accepted without verification.\<close>

definition handleRegenerateScene :: "'w services \<Rightarrow> scene \<Rightarrow> 'w run \<Rightarrow> scene \<times> 'w run" where
  "handleRegenerateScene sv sc r =
     (case r of (w, tr) \<Rightarrow>
        (let (url, w1) = resolve sv (imagePrompt sc) w;
             tr1 = tr @ [Resolve_call (imagePrompt sc)]
         in if truthy url then (sc\<lparr>videoUrl := url\<rparr>, (w1, tr1)) else (sc, (w1, tr1))))"

text \<open>
  The body of the first loop of \<open>handleExport\<close> (the recheck of one scene): verify the
  stored URL when there is one; when it is not valid, resolve once more and store what
  comes back if it is truthy.
\<close>

definition export_scene :: "'w services \<Rightarrow> scene \<Rightarrow> 'w run \<Rightarrow> scene \<times> 'w run" where
  "export_scene sv sc r =
     (case r of (w, tr) \<Rightarrow>
        (let url = videoUrl sc;
             (isValid, w1, tr1) =
               (if truthy url
                then (let (v, w') = verify sv (the url) w in (v, w', tr @ [Verify_call (the url)]))
                else (False, w, tr))
         in if \<not> isValid then
              (let (recoveredUrl, w2) = resolve sv (imagePrompt sc) w1;
                   tr2 = tr1 @ [Resolve_call (imagePrompt sc)]
               in if truthy recoveredUrl
                  then (sc\<lparr>videoUrl := recoveredUrl\<rparr>, (w2, tr2))
                  else (sc, (w2, tr2)))
            else (sc, (w1, tr1))))"

fun export_recheck :: "'w services \<Rightarrow> scene list \<Rightarrow> 'w run \<Rightarrow> scene list \<times> 'w run" where
  "export_recheck sv [] r = ([], r)"
| "export_recheck sv (sc # rest) r =
     (let (sc', r1) = export_scene sv sc r;
          (rest', r2) = export_recheck sv rest r1
      in (sc' # rest', r2))"

text \<open>\<open>updatedScenes.map(s => s.videoUrl).filter(Boolean)\<close>\<close>

definition finalUrls :: "scene list \<Rightarrow> string list" where
  "finalUrls scs = map the (filter truthy (map videoUrl scs))"

datatype export_outcome =
    No_project
  | Refused
  | Declined
  | Merge_failed
  | Exported string

text \<open>
  \<open>handleExport\<close>: the recheck, the gate on the number of scenes that hold a URL, then
  the merge. It returns the outcome, the project as the application holds it afterwards,
  and the run.
\<close>

definition handleExport ::
  "'w services \<Rightarrow> short_project option \<Rightarrow> 'w run \<Rightarrow> export_outcome \<times> short_project option \<times> 'w run" where
  "handleExport sv currentShort r =
     (case currentShort of
        None \<Rightarrow> (No_project, None, r)
      | Some p \<Rightarrow>
         (let (updatedScenes, (w1, tr1)) = export_recheck sv (scenes p) r;
              p1 = p\<lparr>scenes := updatedScenes\<rparr>;
              urls = finalUrls updatedScenes
          in if length urls = 0 then
               (Refused, Some p1,
                (w1, tr1 @ [Alert_call ''No valid videos could be found. Please try a different topic or regenerate individual scenes.'']))
             else
               (let (proceed, w2, tr2) =
                      (if length urls < length updatedScenes
                       then (let (ans, w') = confirm sv (length urls) (length updatedScenes) w1
                             in (ans, w', tr1 @ [Confirm_call (length urls) (length updatedScenes)]))
                       else (True, w1, tr1))
                in if \<not> proceed then (Declined, Some p1, (w2, tr2))
                   else
                     (let (mergedUrl, w3) = merge sv urls w2;
                          tr3 = tr2 @ [Merge_call urls]
                      in if truthy mergedUrl
                         then (Exported (the mergedUrl),
                               Some (p1\<lparr>finalVideoUrl := mergedUrl\<rparr>), (w3, tr3))
                         else (Merge_failed, Some p1, (w3, tr3))))))"

text \<open>
  Services whose answers do not change over time, built from plain functions: the world
  is a unit.
\<close>

definition steady_services ::
  "(string \<Rightarrow> string option) \<Rightarrow> (string \<Rightarrow> bool) \<Rightarrow> bool \<Rightarrow> string option \<Rightarrow> unit services" where
  "steady_services rs vf ans out =
     \<lparr>resolve = (\<lambda>q w. (rs q, w)), verify = (\<lambda>u w. (vf u, w)),
      confirm = (\<lambda>n m w. (ans, w)), merge = (\<lambda>us w. (out, w))\<rparr>"

text \<open>The calls of one kind in a trace.\<close>

fun is_resolve :: "call \<Rightarrow> bool" where
  "is_resolve (Resolve_call q) = True"
| "is_resolve c = False"

fun is_verify :: "call \<Rightarrow> bool" where
  "is_verify (Verify_call u) = True"
| "is_verify c = False"

fun is_merge :: "call \<Rightarrow> bool" where
  "is_merge (Merge_call us) = True"
| "is_merge c = False"

fun is_confirm :: "call \<Rightarrow> bool" where
  "is_confirm (Confirm_call n m) = True"
| "is_confirm c = False"

text \<open>The number of resolve calls in a trace, and the URLs verified in it, in order.\<close>

definition resolve_count :: "call list \<Rightarrow> nat" where
  "resolve_count tr = length (filter is_resolve tr)"

fun verified_urls :: "call list \<Rightarrow> string list" where
  "verified_urls [] = []"
| "verified_urls (Verify_call u # rest) = u # verified_urls rest"
| "verified_urls (c # rest) = verified_urls rest"

text \<open>A scene with a search query and a clip reference, its texts empty.\<close>

definition scene_with :: "string \<Rightarrow> string option \<Rightarrow> scene" where
  "scene_with q u = \<lparr>imagePrompt = q, narration = [], overlayText = [], videoUrl = u\<rparr>"

text \<open>A project holding the given scenes, not yet exported.\<close>

definition demo_project :: "scene list \<Rightarrow> short_project" where
  "demo_project scs =
     \<lparr>project_id = ''p1'', title = ''Demo'', scenes = scs, timestamp = 0, finalVideoUrl = None\<rparr>"

section \<open>Provider adapters of the route \<open>/api/search-video\<close>\<close>

text \<open>\<open>isWatermarked\<close>: the denylist of stock-provider markers.\<close>

definition forbidden :: "string list" where
  "forbidden = [''shutterstock'', ''envato'', ''adobe'', ''istock'', ''getty'', ''pond5'',
                ''depositphotos'', ''dreamstime'', ''123rf'', ''canva'']"

definition isWatermarked :: "string \<Rightarrow> bool" where
  "isWatermarked url = list_ex (\<lambda>word. str_includes (toLowerCase url) word) forbidden"

text \<open>
  What a page visit gives: \<open>browser.newPage()\<close> threw, the navigation or the evaluation
  on the page threw, or the page was read.
\<close>

datatype 'a visit = Page_fail | Nav_fail | Loaded 'a

text \<open>An asynchronous function either rejects or returns a value.\<close>

datatype 'a outcome = Raised | Returned 'a

text \<open>
  \<open>Math.floor(Math.random() * n)\<close> for a draw \<open>u\<close> of \<open>Math.random()\<close>, and the read
  \<open>xs[i]\<close>, which is \<open>undefined\<close> outside the list. A draw lies in the interval from 0
  (included) to 1 (excluded), so the source never reads outside; the model says what
  would happen, with \<open>None\<close> for \<open>undefined\<close>.
\<close>

definition random_index :: "rat \<Rightarrow> nat \<Rightarrow> int" where
  "random_index u n = \<lfloor>u * of_nat n\<rfloor>"

definition at_index :: "'a list \<Rightarrow> int \<Rightarrow> 'a option" where
  "at_index xs i = (if 0 \<le> i \<and> i < int (length xs) then Some (xs ! nat i) else None)"

text \<open>
  The web as one run of the route sees it, by search term or by link: for each site the
  elements its selectors find (the \<open>href\<close> or \<open>src\<close> of each), the responses the Pexels
  page receives (URL and \<open>content-type\<close>) with the number of video cards, the
  permutation \<open>sort(() => 0.5 - Math.random())\<close> leaves, and the random draws.
\<close>

record web =
  browser_ok :: bool
  shuffle :: "string list \<Rightarrow> string list"
  coverr_search :: "string \<Rightarrow> string list visit"
  coverr_video :: "string \<Rightarrow> string option visit"
  videvo_search :: "string \<Rightarrow> string list visit"
  videvo_draw :: "string \<Rightarrow> rat"
  vidsplay_search :: "string \<Rightarrow> string list visit"
  vidsplay_video :: "string \<Rightarrow> string option visit"
  pexels_search :: "string \<Rightarrow> (nat \<times> (string \<times> string option) list) visit"
  pexels_draw :: "string \<Rightarrow> rat"
  pixabay_search :: "string \<Rightarrow> string list visit"
  pixabay_video :: "string \<Rightarrow> string option visit"
  mixkit_search :: "string \<Rightarrow> string list visit"
  mixkit_video :: "string \<Rightarrow> string option visit"
  motion_search :: "string \<Rightarrow> string list visit"
  motion_draw :: "string \<Rightarrow> rat"
  splitshire_search :: "string \<Rightarrow> string list visit"
  splitshire_video :: "string \<Rightarrow> string option visit"
  reddit_search :: "string \<Rightarrow> string list visit"
  fallback_draw :: rat

text \<open>
  The loop over detail links on the adapter's own page (Coverr, Vidsplay): a navigation
  that throws leaves the loop and the adapter returns null.
\<close>

fun follow_links :: "(string \<Rightarrow> string option visit) \<Rightarrow> string list \<Rightarrow> string option" where
  "follow_links video [] = None"
| "follow_links video (link # rest) =
     (case video link of
        Loaded videoSrc \<Rightarrow>
          (if truthy videoSrc \<and> \<not> isWatermarked (the videoSrc) then videoSrc
           else follow_links video rest)
      | Nav_fail \<Rightarrow> None
      | Page_fail \<Rightarrow> None)"

text \<open>
  The loop over detail links with a page of its own per link (Pixabay, Mixkit): a
  navigation that throws is caught inside the loop and the next link is tried; a page that
  cannot be opened ends the adapter. \<open>skip\<close> is the test on the link itself that Pixabay
  makes first.
\<close>

fun follow_detail_pages ::
  "(string \<Rightarrow> bool) \<Rightarrow> (string \<Rightarrow> string option visit) \<Rightarrow> string list \<Rightarrow> string option" where
  "follow_detail_pages skip video [] = None"
| "follow_detail_pages skip video (link # rest) =
     (if skip link then follow_detail_pages skip video rest
      else case video link of
        Page_fail \<Rightarrow> None
      | Nav_fail \<Rightarrow> follow_detail_pages skip video rest
      | Loaded videoSrc \<Rightarrow>
          (if truthy videoSrc \<and> \<not> isWatermarked (the videoSrc) then videoSrc
           else follow_detail_pages skip video rest))"

definition tryCoverr :: "web \<Rightarrow> string \<Rightarrow> string option outcome" where
  "tryCoverr wb searchTerm =
     (case coverr_search wb searchTerm of
        Page_fail \<Rightarrow> Raised
      | Nav_fail \<Rightarrow> Returned None
      | Loaded hrefs \<Rightarrow>
          (let videoLinks = filter (\<lambda>href. str_includes href ''/videos/'') hrefs
           in if length videoLinks > 0
              then Returned (follow_links (coverr_video wb) (take 3 (shuffle wb videoLinks)))
              else Returned None))"

definition tryVidevo :: "web \<Rightarrow> string \<Rightarrow> string option outcome" where
  "tryVidevo wb searchTerm =
     (case videvo_search wb searchTerm of
        Page_fail \<Rightarrow> Raised
      | Nav_fail \<Rightarrow> Returned None
      | Loaded srcs \<Rightarrow>
          (let videoSrcs = filter (\<lambda>src. src \<noteq> []) srcs
           in if length videoSrcs > 0 then
                (let validSrcs = filter (\<lambda>src. \<not> isWatermarked src
                                          \<and> \<not> str_includes src ''preview''
                                          \<and> \<not> str_includes src ''small'') videoSrcs;
                     fallbackSrcs = filter (\<lambda>src. \<not> isWatermarked src) videoSrcs;
                     bestSrcs = (if length validSrcs > 0 then validSrcs else fallbackSrcs)
                 in if length bestSrcs > 0
                    then Returned (at_index bestSrcs
                           (random_index (videvo_draw wb searchTerm) (length bestSrcs)))
                    else Returned None)
              else Returned None))"

definition tryVidsplay :: "web \<Rightarrow> string \<Rightarrow> string option outcome" where
  "tryVidsplay wb searchTerm =
     (case vidsplay_search wb searchTerm of
        Page_fail \<Rightarrow> Raised
      | Nav_fail \<Rightarrow> Returned None
      | Loaded videoLinks \<Rightarrow>
          (if length videoLinks > 0
           then Returned (follow_links (vidsplay_video wb) (take 2 (shuffle wb videoLinks)))
           else Returned None))"

text \<open>
  The set \<open>collectedVideos\<close> of Pexels keeps its members in the order they were first
  added.
\<close>

fun add_to_set :: "'a list \<Rightarrow> 'a \<Rightarrow> 'a list" where
  "add_to_set xs x = (if x \<in> set xs then xs else xs @ [x])"

definition pexels_accepts :: "string \<times> string option \<Rightarrow> bool" where
  "pexels_accepts r =
     (case r of (url, ct) \<Rightarrow>
        (str_includes (header_or_empty ct) ''video'' \<or> endsWith url ''.mp4'')
        \<and> \<not> str_includes url ''preview'' \<and> \<not> str_includes url ''tiny''
        \<and> \<not> str_includes url ''small'' \<and> \<not> isWatermarked url)"

definition collectedVideos :: "(string \<times> string option) list \<Rightarrow> string list" where
  "collectedVideos responses = foldl add_to_set [] (map fst (filter pexels_accepts responses))"

definition tryPexels :: "web \<Rightarrow> string \<Rightarrow> string option outcome" where
  "tryPexels wb searchTerm =
     (case pexels_search wb searchTerm of
        Page_fail \<Rightarrow> Raised
      | Nav_fail \<Rightarrow> Returned None
      | Loaded (videoCards, responses) \<Rightarrow>
          (if videoCards = 0 then Returned None
           else (let videos = collectedVideos responses
                 in if length videos > 0
                    then Returned (at_index videos
                           (random_index (pexels_draw wb searchTerm) (length videos)))
                    else Returned None)))"

text \<open>
  The test \<open>/\/videos\/[a-z0-9-]+\d+\/$/\<close> that Pixabay applies to a link: somewhere
  \<open>/videos/\<close> is followed, up to the end, by a run of lower-case letters, digits and
  hyphens that has at least two characters and ends in a digit, and then a slash.
\<close>

definition is_digit :: "char \<Rightarrow> bool" where
  "is_digit c = (c \<in> set ''0123456789'')"

definition is_slug_char :: "char \<Rightarrow> bool" where
  "is_slug_char c = (c \<in> set ''abcdefghijklmnopqrstuvwxyz0123456789-'')"

definition slug_then_slash :: "string \<Rightarrow> bool" where
  "slug_then_slash s =
     (s \<noteq> [] \<and> last s = CHR ''/'' \<and>
      (let b = butlast s
       in length b \<ge> 2 \<and> list_all is_slug_char b \<and> is_digit (last b)))"

fun pixabay_link :: "string \<Rightarrow> bool" where
  "pixabay_link [] = False"
| "pixabay_link (c # cs) =
     ((startsWith (c # cs) ''/videos/'' \<and> slug_then_slash (drop 8 (c # cs)))
      \<or> pixabay_link cs)"

definition tryPixabay :: "web \<Rightarrow> string \<Rightarrow> string option outcome" where
  "tryPixabay wb searchTerm =
     (case pixabay_search wb searchTerm of
        Page_fail \<Rightarrow> Raised
      | Nav_fail \<Rightarrow> Returned None
      | Loaded hrefs \<Rightarrow>
          (let videoLinks = filter pixabay_link hrefs
           in if length videoLinks > 0
              then Returned (follow_detail_pages isWatermarked (pixabay_video wb)
                               (take 3 (shuffle wb videoLinks)))
              else Returned None))"

definition tryMixkit :: "web \<Rightarrow> string \<Rightarrow> string option outcome" where
  "tryMixkit wb searchTerm =
     (case mixkit_search wb searchTerm of
        Page_fail \<Rightarrow> Raised
      | Nav_fail \<Rightarrow> Returned None
      | Loaded hrefs \<Rightarrow>
          (let videoLinks = filter (\<lambda>href. str_includes href ''/free-stock-video/'') hrefs
           in if length videoLinks > 0
              then Returned (follow_detail_pages (\<lambda>link. False) (mixkit_video wb)
                               (take 3 (shuffle wb videoLinks)))
              else Returned None))"

definition tryMotionElements :: "web \<Rightarrow> string \<Rightarrow> string option outcome" where
  "tryMotionElements wb searchTerm =
     (case motion_search wb searchTerm of
        Page_fail \<Rightarrow> Raised
      | Nav_fail \<Rightarrow> Returned None
      | Loaded srcs \<Rightarrow>
          (let videoSrcs = filter (\<lambda>src. src \<noteq> []) srcs
           in if length videoSrcs > 0 then
                (let validSrcs = filter (\<lambda>src. \<not> isWatermarked src) videoSrcs
                 in if length validSrcs > 0
                    then Returned (at_index validSrcs
                           (random_index (motion_draw wb searchTerm) (min (length validSrcs) 3)))
                    else Returned None)
              else Returned None))"

definition trySplitShire :: "web \<Rightarrow> string \<Rightarrow> string option outcome" where
  "trySplitShire wb searchTerm =
     (case splitshire_search wb searchTerm of
        Page_fail \<Rightarrow> Raised
      | Nav_fail \<Rightarrow> Returned None
      | Loaded videoLinks \<Rightarrow>
          (case videoLinks of
             [] \<Rightarrow> Returned None
           | link # others \<Rightarrow>
               (case splitshire_video wb link of
                  Loaded videoSrc \<Rightarrow>
                    (if truthy videoSrc \<and> \<not> isWatermarked (the videoSrc)
                     then Returned videoSrc else Returned None)
                | Nav_fail \<Rightarrow> Returned None
                | Page_fail \<Rightarrow> Returned None)))"

definition tryReddit :: "web \<Rightarrow> string \<Rightarrow> string option outcome" where
  "tryReddit wb searchTerm =
     (case reddit_search wb searchTerm of
        Page_fail \<Rightarrow> Raised
      | Nav_fail \<Rightarrow> Returned None
      | Loaded hrefs \<Rightarrow> Returned None)"

text \<open>The adapters in the order the route lists them.\<close>

definition sources :: "web \<Rightarrow> (string \<Rightarrow> string option outcome) list" where
  "sources wb = [tryPexels wb, tryCoverr wb, tryVidevo wb, tryPixabay wb, tryMixkit wb,
                 tryVidsplay wb, tryMotionElements wb, trySplitShire wb, tryReddit wb]"

text \<open>
  \<open>tryPexels\<close> of the sequential variant of the server: the same listener without the
  denylist, and the first collected URL. The wait for the selector is inside the
  \<open>try\<close>, so a page without cards gives null.
\<close>

definition pexels_accepts_seq :: "string \<times> string option \<Rightarrow> bool" where
  "pexels_accepts_seq r =
     (case r of (url, ct) \<Rightarrow>
        (str_includes (header_or_empty ct) ''video'' \<or> endsWith url ''.mp4'')
        \<and> \<not> str_includes url ''preview'' \<and> \<not> str_includes url ''tiny'')"

definition tryPexels_seq ::
  "(nat \<times> (string \<times> string option) list) visit \<Rightarrow> string option outcome" where
  "tryPexels_seq page =
     (case page of
        Page_fail \<Rightarrow> Raised
      | Nav_fail \<Rightarrow> Returned None
      | Loaded (videoCards, responses) \<Rightarrow>
          (if videoCards = 0 then Returned None
           else (let videos = foldl add_to_set [] (map fst (filter pexels_accepts_seq responses))
                 in if length videos > 0 then Returned (Some (hd videos)) else Returned None)))"

text \<open>
  A web in which the browser starts and no site can be reached, and one in which only
  Videvo shows clips. Every random draw is \<open>u\<close> and the shuffle leaves the order.
\<close>

definition offline_web :: "rat \<Rightarrow> web" where
  "offline_web u =
     \<lparr>browser_ok = True, shuffle = (\<lambda>links. links),
      coverr_search = (\<lambda>t. Nav_fail), coverr_video = (\<lambda>l. Nav_fail),
      videvo_search = (\<lambda>t. Nav_fail), videvo_draw = (\<lambda>t. u),
      vidsplay_search = (\<lambda>t. Nav_fail), vidsplay_video = (\<lambda>l. Nav_fail),
      pexels_search = (\<lambda>t. Nav_fail), pexels_draw = (\<lambda>t. u),
      pixabay_search = (\<lambda>t. Nav_fail), pixabay_video = (\<lambda>l. Nav_fail),
      mixkit_search = (\<lambda>t. Nav_fail), mixkit_video = (\<lambda>l. Nav_fail),
      motion_search = (\<lambda>t. Nav_fail), motion_draw = (\<lambda>t. u),
      splitshire_search = (\<lambda>t. Nav_fail), splitshire_video = (\<lambda>l. Nav_fail),
      reddit_search = (\<lambda>t. Nav_fail), fallback_draw = u\<rparr>"

definition videvo_web :: "string list \<Rightarrow> rat \<Rightarrow> web" where
  "videvo_web srcs u = (offline_web u)\<lparr>videvo_search := (\<lambda>t. Loaded srcs)\<rparr>"

section \<open>Scene video resolver: the route \<open>/api/search-video\<close>\<close>

text \<open>\<open>s.split(' ')\<close> and \<open>words.join(' ')\<close>\<close>

fun split_on :: "char \<Rightarrow> string \<Rightarrow> string list" where
  "split_on sep [] = [[]]"
| "split_on sep (c # cs) =
     (if c = sep then [] # split_on sep cs
      else (case split_on sep cs of
              [] \<Rightarrow> [[c]]
            | w # ws \<Rightarrow> (c # w) # ws))"

fun join_with :: "string \<Rightarrow> string list \<Rightarrow> string" where
  "join_with sep [] = []"
| "join_with sep [w] = w"
| "join_with sep (w # v # ws) = w @ sep @ join_with sep (v # ws)"

text \<open>The query variations of the parallel route.\<close>

definition variations :: "string \<Rightarrow> string list" where
  "variations query =
     [query, query @ '' cinematic'', join_with '' '' (take 2 (split_on CHR '' '' query))]"

text \<open>
  The query variations of the sequential route: the query, its last two words, its first
  word with \<open>vertical\<close>, and \<open>aesthetic\<close> with its first word.
\<close>

definition first_word :: "string \<Rightarrow> string" where
  "first_word query = (case split_on CHR '' '' query of [] \<Rightarrow> [] | w # ws \<Rightarrow> w)"

definition variations_seq :: "string \<Rightarrow> string list" where
  "variations_seq query =
     [query,
      join_with '' '' (let ws = split_on CHR '' '' query in drop (length ws - 2) ws),
      first_word query @ '' vertical'',
      ''aesthetic '' @ first_word query]"

definition fallbacks :: "string list" where
  "fallbacks =
     [''https://player.vimeo.com/external/434045526.sd.mp4?s=c27dbed29f271206012137c745301a62459ed6e7&profile_id=165&oauth2_token_id=57447761'',
      ''https://player.vimeo.com/external/403846614.sd.mp4?s=34f97157833290659639537f7175402636a0d494&profile_id=165&oauth2_token_id=57447761'',
      ''https://player.vimeo.com/external/394740316.sd.mp4?s=434449f0185c4929881f6d862e3647d9d8e95241&profile_id=165&oauth2_token_id=57447761'',
      ''https://player.vimeo.com/external/449074011.sd.mp4?s=53946603b494277c0018ef9a2d3c144445b28a59&profile_id=165&oauth2_token_id=57447761'',
      ''https://player.vimeo.com/external/494252666.sd.mp4?s=72771929239738fc033c876010b417b16ba9220a&profile_id=165&oauth2_token_id=57447761'',
      ''https://player.vimeo.com/external/459389137.sd.mp4?s=96445f6d230114f7768391811176dd921757f94a&profile_id=165&oauth2_token_id=57447761'',
      ''https://player.vimeo.com/external/418306352.sd.mp4?s=53946603b494277c0018ef9a2d3c144445b28a59&profile_id=165&oauth2_token_id=57447761'',
      ''https://player.vimeo.com/external/371433846.sd.mp4?s=236da2f3c05d00db97ee90743530f769274943c3&profile_id=165&oauth2_token_id=57447761'']"

text \<open>The fixed URL of the \<open>catch\<close> branch (and the only fallback of the sequential route).\<close>

definition critical_fallback :: string where
  "critical_fallback =
     ''https://player.vimeo.com/external/434045526.sd.mp4?s=c27dbed29f271206012137c745301a62459ed6e7&profile_id=165&oauth2_token_id=57447761''"

text \<open>\<open>Promise.all\<close>: rejects when one of the promises rejects, else all the values.\<close>

fun promise_all :: "'a outcome list \<Rightarrow> 'a list outcome" where
  "promise_all [] = Returned []"
| "promise_all (Raised # rest) = Raised"
| "promise_all (Returned x # rest) =
     (case promise_all rest of Raised \<Rightarrow> Raised | Returned xs \<Rightarrow> Returned (x # xs))"

text \<open>\<open>results.find(url => url !== null)\<close>, null when there is none.\<close>

definition first_non_null :: "string option list \<Rightarrow> string option" where
  "first_non_null results =
     (case find (\<lambda>url. url \<noteq> None) results of None \<Rightarrow> None | Some url \<Rightarrow> url)"

text \<open>
  An invocation of an adapter: its position in the list and the term it was given.
  The routes return, next to the reply, the invocations they made.
\<close>

type_synonym invocation = "nat \<times> string"

datatype search_end = Found string | Exhausted | Crashed

text \<open>
  The loop over the variations of the parallel route: all adapters are started on the
  term, then all are awaited, then the first result that is not null is taken.
\<close>

fun search_terms ::
  "(string \<Rightarrow> string option outcome) list \<Rightarrow> string list \<Rightarrow> invocation list
     \<Rightarrow> search_end \<times> invocation list" where
  "search_terms ads [] ivs = (Exhausted, ivs)"
| "search_terms ads (term # rest) ivs =
     (if term = [] then search_terms ads rest ivs
      else (let started = map (\<lambda>a. a term) ads;
                ivs1 = ivs @ map (\<lambda>k. (k, term)) [0 ..< length ads]
            in case promise_all started of
                 Raised \<Rightarrow> (Crashed, ivs1)
               | Returned results \<Rightarrow>
                   (let validUrl = first_non_null results
                    in if truthy validUrl then (Found (the validUrl), ivs1)
                       else search_terms ads rest ivs1)))"

datatype search_reply = Search_400 string | Search_200 "string option"

text \<open>
  The parallel route over a list of adapters; \<open>ok\<close> says that the browser started and
  \<open>u\<close> is the draw for the fallback.
\<close>

definition search_video ::
  "(string \<Rightarrow> string option outcome) list \<Rightarrow> bool \<Rightarrow> rat \<Rightarrow> string
     \<Rightarrow> search_reply \<times> invocation list" where
  "search_video ads ok u query =
     (if query = [] then (Search_400 ''Query required'', [])
      else if \<not> ok then (Search_200 (Some critical_fallback), [])
      else case search_terms ads (variations query) [] of
             (Found url, ivs) \<Rightarrow> (Search_200 (Some url), ivs)
           | (Crashed, ivs) \<Rightarrow> (Search_200 (Some critical_fallback), ivs)
           | (Exhausted, ivs) \<Rightarrow>
               (Search_200 (at_index fallbacks (random_index u (length fallbacks))), ivs))"

definition search_video_route :: "web \<Rightarrow> string \<Rightarrow> search_reply \<times> invocation list" where
  "search_video_route wb query = search_video (sources wb) (browser_ok wb) (fallback_draw wb) query"

text \<open>
  The sequential route: \<open>let url = await tryPexels(term); if (!url) url = await ...\<close>.
  An adapter is invoked only while the URL so far is falsy.
\<close>

fun try_in_turn ::
  "(string \<Rightarrow> string option outcome) list \<Rightarrow> string \<Rightarrow> nat \<Rightarrow> string option
     \<Rightarrow> invocation list \<Rightarrow> string option outcome \<times> invocation list" where
  "try_in_turn [] term k url ivs = (Returned url, ivs)"
| "try_in_turn (a # rest) term k url ivs =
     (if truthy url then (Returned url, ivs)
      else case a term of
             Raised \<Rightarrow> (Raised, ivs @ [(k, term)])
           | Returned url' \<Rightarrow> try_in_turn rest term (k + 1) url' (ivs @ [(k, term)]))"

fun search_terms_seq ::
  "(string \<Rightarrow> string option outcome) list \<Rightarrow> string list \<Rightarrow> invocation list
     \<Rightarrow> search_end \<times> invocation list" where
  "search_terms_seq ads [] ivs = (Exhausted, ivs)"
| "search_terms_seq ads (term # rest) ivs =
     (if term = [] then search_terms_seq ads rest ivs
      else case try_in_turn ads term 0 None ivs of
             (Raised, ivs1) \<Rightarrow> (Crashed, ivs1)
           | (Returned url, ivs1) \<Rightarrow>
               (if truthy url then (Found (the url), ivs1)
                else search_terms_seq ads rest ivs1))"

definition search_video_seq ::
  "(string \<Rightarrow> string option outcome) list \<Rightarrow> bool \<Rightarrow> string
     \<Rightarrow> search_reply \<times> invocation list" where
  "search_video_seq ads ok query =
     (if query = [] then (Search_400 ''Query required'', [])
      else if \<not> ok then (Search_200 (Some critical_fallback), [])
      else case search_terms_seq ads (variations_seq query) [] of
             (Found url, ivs) \<Rightarrow> (Search_200 (Some url), ivs)
           | (Crashed, ivs) \<Rightarrow> (Search_200 (Some critical_fallback), ivs)
           | (Exhausted, ivs) \<Rightarrow> (Search_200 (Some critical_fallback), ivs))"

text \<open>
  The client \<open>generateSceneVideo\<close>: null when the request failed or the reply is not ok,
  otherwise the \<open>url\<close> field of the reply.
\<close>

fun generateSceneVideo :: "search_reply fetched \<Rightarrow> string option" where
  "generateSceneVideo Fetch_error = None"
| "generateSceneVideo (Fetched (Search_400 e)) = None"
| "generateSceneVideo (Fetched (Search_200 url)) = url"

text \<open>A mocked adapter: it never rejects, and answers by a plain function of the term.\<close>

definition mocked :: "(string \<Rightarrow> string option) \<Rightarrow> string \<Rightarrow> string option outcome" where
  "mocked m term = Returned (m term)"

text \<open>
  The invocations of every adapter of a list of \<open>n\<close>, on each of the terms in turn.
\<close>

definition all_invocations :: "nat \<Rightarrow> string list \<Rightarrow> invocation list" where
  "all_invocations n terms = concat (map (\<lambda>s. map (\<lambda>j. (j, s)) [0 ..< n]) terms)"

text \<open>
  A web in which only Coverr shows a clip; the flag says whether the page of the Reddit
  adapter opens.
\<close>

definition coverr_web :: "bool \<Rightarrow> web" where
  "coverr_web reddit_opens =
     (offline_web 0)
       \<lparr>coverr_search := (\<lambda>t. Loaded [''https://coverr.co/videos/sea'']),
        coverr_video := (\<lambda>l. Loaded (Some ''https://cdn.coverr.co/sea.mp4'')),
        reddit_search := (\<lambda>t. if reddit_opens then Nav_fail else Page_fail)\<rparr>"

section \<open>Assembly engine: the route \<open>/api/merge-videos\<close>\<close>

text \<open>
  A field of the request body that should hold an array of strings: missing (or null),
  present but not an array, or an array.
\<close>

datatype json_array = Absent | Not_array | Array "string list"

record merge_body =
  videoUrls :: json_array
  audioUrls :: json_array

text \<open>The files of a job, all under the job's own directory.\<close>

datatype job_file = Raw_video nat | Raw_audio nat | Scene_out nat | Normalized nat | Final_out

text \<open>
  What the job depends on outside the route: the fresh identifier, whether each download,
  write and encoder run succeeds, and what the probe of the audio file reports (an
  error, or the metadata with or without a duration).
\<close>

record merge_env =
  jobId :: string
  get_video :: "nat \<Rightarrow> string \<Rightarrow> bool"
  get_audio :: "nat \<Rightarrow> string \<Rightarrow> bool"
  write_audio :: "nat \<Rightarrow> string \<Rightarrow> bool"
  ffprobe :: "nat \<Rightarrow> rat option outcome"
  encode_scene :: "nat \<Rightarrow> rat \<Rightarrow> bool"
  merge_to_file :: "job_file list \<Rightarrow> bool"
  get_video_try :: "nat \<Rightarrow> nat \<Rightarrow> string \<Rightarrow> bool"
  normalize :: "nat \<Rightarrow> job_file \<Rightarrow> bool"

text \<open>The work a job does, in order.\<close>

datatype merge_step =
    Mkdir string
  | Download_video nat string
  | Download_audio nat string
  | Write_audio nat
  | Probe nat
  | Encode nat rat
  | Download_try nat nat string
  | Normalize nat job_file
  | Concat "job_file list"

datatype merge_failure =
    Video_download_failed nat
  | Audio_failed nat
  | Probe_failed nat
  | Encode_failed nat
  | Normalize_failed nat
  | Nothing_downloaded
  | Concat_failed

datatype merge_reply = Merge_400 string | Merge_500 merge_failure | Merge_200 string

text \<open>
  The audio of scene \<open>i\<close>: an inline payload (\<open>data:\<close>) is cut at the commas and its second
  piece decoded and written, which throws when there is no comma; a remote reference is
  downloaded. The step attempted is returned with the success.
\<close>

definition fetch_audio :: "merge_env \<Rightarrow> nat \<Rightarrow> string \<Rightarrow> bool \<times> merge_step" where
  "fetch_audio env i audioUrl =
     (if startsWith audioUrl ''data:''
      then (case at_index (split_on CHR '','' audioUrl) 1 of
              None \<Rightarrow> (False, Write_audio i)
            | Some base64Data \<Rightarrow> (write_audio env i base64Data, Write_audio i))
      else (get_audio env i audioUrl, Download_audio i audioUrl))"

text \<open>
  The loop over the scenes of the route with audio: download the clip, get the audio,
  probe its duration, encode the scene. Any step that fails throws, which ends the loop.
\<close>

fun merge_scenes ::
  "merge_env \<Rightarrow> nat \<Rightarrow> (string \<times> string) list \<Rightarrow> job_file list \<Rightarrow> merge_step list
     \<Rightarrow> (merge_failure + job_file list) \<times> merge_step list" where
  "merge_scenes env i [] scenePaths steps = (Inr scenePaths, steps)"
| "merge_scenes env i ((clipUrl, audioUrl) # rest) scenePaths steps =
     (let s1 = steps @ [Download_video i clipUrl]
      in if \<not> get_video env i clipUrl then (Inl (Video_download_failed i), s1)
         else (let (audio_ok, step) = fetch_audio env i audioUrl;
                   s2 = s1 @ [step]
               in if \<not> audio_ok then (Inl (Audio_failed i), s2)
                  else (let s3 = s2 @ [Probe i]
                        in case ffprobe env i of
                             Raised \<Rightarrow> (Inl (Probe_failed i), s3)
                           | Returned d \<Rightarrow>
                               (let duration = (case d of None \<Rightarrow> 0 | Some x \<Rightarrow> x);
                                    s4 = s3 @ [Encode i duration]
                                in if \<not> encode_scene env i duration
                                   then (Inl (Encode_failed i), s4)
                                   else merge_scenes env (i + 1) rest
                                          (scenePaths @ [Scene_out i]) s4))))"

definition artifact_url :: "string \<Rightarrow> string" where
  "artifact_url job = ''/temp/'' @ job @ ''/final_short_'' @ job @ ''.mp4''"

text \<open>
  The route with audio. After the two checks the arrays have the same length, so the
  loop over \<open>i\<close> reads the pairs of \<open>zip\<close>.
\<close>

definition merge_videos_route :: "merge_env \<Rightarrow> merge_body \<Rightarrow> merge_reply \<times> merge_step list" where
  "merge_videos_route env body =
     (case videoUrls body of
        Absent \<Rightarrow> (Merge_400 ''videoUrls array required'', [])
      | Not_array \<Rightarrow> (Merge_400 ''videoUrls array required'', [])
      | Array vs \<Rightarrow>
          (if length vs = 0 then (Merge_400 ''videoUrls array required'', [])
           else case audioUrls body of
             Absent \<Rightarrow> (Merge_400 ''Matching audioUrls array required'', [])
           | Not_array \<Rightarrow> (Merge_400 ''Matching audioUrls array required'', [])
           | Array as \<Rightarrow>
               (if length as \<noteq> length vs
                then (Merge_400 ''Matching audioUrls array required'', [])
                else case merge_scenes env 0 (zip vs as) [] [Mkdir (jobId env)] of
                  (Inl failure, steps) \<Rightarrow> (Merge_500 failure, steps)
                | (Inr scenePaths, steps) \<Rightarrow>
                    (if merge_to_file env scenePaths
                     then (Merge_200 (artifact_url (jobId env)), steps @ [Concat scenePaths])
                     else (Merge_500 Concat_failed, steps @ [Concat scenePaths])))))"

text \<open>
  The route of the video-only variant of the server. Each clip is downloaded with up to
  three attempts; a clip whose attempts all fail is skipped.
\<close>

function download_attempts ::
  "merge_env \<Rightarrow> nat \<Rightarrow> string \<Rightarrow> bool \<Rightarrow> nat \<Rightarrow> merge_step list \<Rightarrow> bool \<times> merge_step list" where
  "download_attempts env i clipUrl downloaded attempts steps =
     (if \<not> downloaded \<and> attempts < 3 then
        (let attempts' = attempts + 1;
             steps' = steps @ [Download_try i attempts' clipUrl]
         in if get_video_try env i attempts' clipUrl
            then download_attempts env i clipUrl True attempts' steps'
            else download_attempts env i clipUrl False attempts' steps')
      else (downloaded, steps))"
  by pat_completeness auto
termination
  by (relation "measure (\<lambda>(env, i, clipUrl, downloaded, attempts, steps). 3 - attempts)") auto

fun download_all ::
  "merge_env \<Rightarrow> nat \<Rightarrow> string list \<Rightarrow> job_file list \<Rightarrow> merge_step list
     \<Rightarrow> job_file list \<times> merge_step list" where
  "download_all env i [] localPaths steps = (localPaths, steps)"
| "download_all env i (clipUrl # rest) localPaths steps =
     (let (downloaded, s1) = download_attempts env i clipUrl False 0 steps
      in download_all env (i + 1) rest
           (if downloaded then localPaths @ [Raw_video i] else localPaths) s1)"

fun normalize_all ::
  "merge_env \<Rightarrow> nat \<Rightarrow> job_file list \<Rightarrow> job_file list \<Rightarrow> merge_step list
     \<Rightarrow> (merge_failure + job_file list) \<times> merge_step list" where
  "normalize_all env i [] normalizedPaths steps = (Inr normalizedPaths, steps)"
| "normalize_all env i (inputPath # rest) normalizedPaths steps =
     (let s1 = steps @ [Normalize i inputPath]
      in if \<not> normalize env i inputPath then (Inl (Normalize_failed i), s1)
         else normalize_all env (i + 1) rest (normalizedPaths @ [Normalized i]) s1)"

definition merge_videos_route_seq ::
  "merge_env \<Rightarrow> json_array \<Rightarrow> merge_reply \<times> merge_step list" where
  "merge_videos_route_seq env videoUrls_field =
     (case videoUrls_field of
        Absent \<Rightarrow> (Merge_400 ''videoUrls array required'', [])
      | Not_array \<Rightarrow> (Merge_400 ''videoUrls array required'', [])
      | Array vs \<Rightarrow>
          (if length vs = 0 then (Merge_400 ''videoUrls array required'', [])
           else (let (localPaths, s1) = download_all env 0 vs [] [Mkdir (jobId env)]
                 in if length localPaths = 0 then (Merge_500 Nothing_downloaded, s1)
                    else case normalize_all env 0 localPaths [] s1 of
                      (Inl failure, steps) \<Rightarrow> (Merge_500 failure, steps)
                    | (Inr normalizedPaths, steps) \<Rightarrow>
                        (if merge_to_file env normalizedPaths
                         then (Merge_200 (artifact_url (jobId env)),
                               steps @ [Concat normalizedPaths])
                         else (Merge_500 Concat_failed, steps @ [Concat normalizedPaths])))))"

text \<open>
  The input contract of the route with audio in the words of the specification: both
  arrays are there, the clips are not empty and the two have the same length.
\<close>

definition spec_input_contract :: "merge_body \<Rightarrow> bool" where
  "spec_input_contract body =
     (case (videoUrls body, audioUrls body) of
        (Array vs, Array as) \<Rightarrow> vs \<noteq> [] \<and> length as = length vs
      | _ \<Rightarrow> False)"

text \<open>
  Every step of scene \<open>i\<close> succeeds (download, audio, probe, encode), and every scene of
  a list does. For the video-only route: a clip is downloaded when one of its three
  attempts succeeds, the files kept are those of the downloaded clips, and every kept file
  is normalised.
\<close>

definition scene_steps_ok :: "merge_env \<Rightarrow> nat \<Rightarrow> string \<times> string \<Rightarrow> bool" where
  "scene_steps_ok env i p =
     (case p of (clipUrl, audioUrl) \<Rightarrow>
        get_video env i clipUrl \<and> fst (fetch_audio env i audioUrl) \<and>
        (case ffprobe env i of
           Raised \<Rightarrow> False
         | Returned d \<Rightarrow> encode_scene env i (case d of None \<Rightarrow> 0 | Some x \<Rightarrow> x)))"

fun all_scenes_ok :: "merge_env \<Rightarrow> nat \<Rightarrow> (string \<times> string) list \<Rightarrow> bool" where
  "all_scenes_ok env i [] = True"
| "all_scenes_ok env i (p # ps) = (scene_steps_ok env i p \<and> all_scenes_ok env (i + 1) ps)"

definition downloaded :: "merge_env \<Rightarrow> nat \<Rightarrow> string \<Rightarrow> bool" where
  "downloaded env i clipUrl =
     (get_video_try env i 1 clipUrl \<or> get_video_try env i 2 clipUrl \<or> get_video_try env i 3 clipUrl)"

fun kept_downloads :: "merge_env \<Rightarrow> nat \<Rightarrow> string list \<Rightarrow> job_file list" where
  "kept_downloads env i [] = []"
| "kept_downloads env i (clipUrl # rest) =
     (if downloaded env i clipUrl then [Raw_video i] else []) @ kept_downloads env (i + 1) rest"

fun all_normalized :: "merge_env \<Rightarrow> nat \<Rightarrow> job_file list \<Rightarrow> bool" where
  "all_normalized env i [] = True"
| "all_normalized env i (p # ps) = (normalize env i p \<and> all_normalized env (i + 1) ps)"

fun is_concat :: "merge_step \<Rightarrow> bool" where
  "is_concat (Concat ps) = True"
| "is_concat s = False"

text \<open>
  The duration a scene is encoded with: what the probe of its narration reports, and 0
  when it reports none (\<open>metadata.format.duration || 0\<close>). The time limits (\<open>-t\<close>) of
  the encoder runs of a job, by scene, and the inputs of its concatenations.
\<close>

definition probed_duration :: "merge_env \<Rightarrow> nat \<Rightarrow> rat" where
  "probed_duration env i =
     (case ffprobe env i of
        Raised \<Rightarrow> 0
      | Returned d \<Rightarrow> (case d of None \<Rightarrow> 0 | Some x \<Rightarrow> x))"

fun encode_limits :: "merge_step list \<Rightarrow> (nat \<times> rat) list" where
  "encode_limits [] = []"
| "encode_limits (Encode i t # rest) = (i, t) # encode_limits rest"
| "encode_limits (s # rest) = encode_limits rest"

fun concat_inputs :: "merge_step list \<Rightarrow> job_file list list" where
  "concat_inputs [] = []"
| "concat_inputs (Concat ps # rest) = ps # concat_inputs rest"
| "concat_inputs (s # rest) = concat_inputs rest"

text \<open>One encoding frame, in seconds: the route encodes with \<open>-r 30\<close>.\<close>

definition frame_duration :: rat where
  "frame_duration = 1 / 30"

text \<open>
  Modelled from the spec: the encoder is an external program and what it writes is not
  in the source. The specification has the encoder truncate a scene to exactly the time
  limit it is given (the narration duration), and the concatenation hold its inputs one
  after the other, so that it lasts the sum of their durations.
\<close>

definition segment_duration :: "rat \<Rightarrow> rat" where
  "segment_duration t = t"

definition concat_duration :: "rat list \<Rightarrow> rat" where
  "concat_duration ds = sum_list ds"

text \<open>
  The duration of a scene file of a job, from the time limit of the encoder run that wrote
  it, and the duration of each artifact the job concatenated.
\<close>

definition scene_file_duration :: "merge_step list \<Rightarrow> job_file \<Rightarrow> rat" where
  "scene_file_duration steps f =
     (case f of
        Scene_out i \<Rightarrow>
          (case map_of (encode_limits steps) i of
             None \<Rightarrow> 0
           | Some t \<Rightarrow> segment_duration t)
      | _ \<Rightarrow> 0)"

definition artifact_durations :: "merge_step list \<Rightarrow> rat list" where
  "artifact_durations steps =
     map (\<lambda>ps. concat_duration (map (scene_file_duration steps) ps)) (concat_inputs steps)"

text \<open>
  An environment in which every step succeeds except the downloads that \<open>bad\<close> names, and
  every narration lasts \<open>d\<close> seconds.
\<close>

definition env_failing :: "(nat \<Rightarrow> bool) \<Rightarrow> rat \<Rightarrow> merge_env" where
  "env_failing bad d =
     \<lparr>jobId = ''job'', get_video = (\<lambda>i url. \<not> bad i), get_audio = (\<lambda>i url. True),
      write_audio = (\<lambda>i payload. True), ffprobe = (\<lambda>i. Returned (Some d)),
      encode_scene = (\<lambda>i t. True), merge_to_file = (\<lambda>paths. True),
      get_video_try = (\<lambda>i attempt url. \<not> bad i), normalize = (\<lambda>i p. True)\<rparr>"

section \<open>Strings: basic facts\<close>

lemma startsWith_iff: "startsWith s p = (\<exists>t. s = p @ t)"
  by (induction s p rule: startsWith.induct) auto

lemma includes_iff: "str_includes s sub = (\<exists>p q. s = p @ sub @ q)"
proof (induction s)
  case Nil
  then show ?case by auto
next
  case (Cons c cs)
  show ?case
  proof
    assume "str_includes (c # cs) sub"
    then consider "startsWith (c # cs) sub" | "str_includes cs sub" by auto
    then show "\<exists>p q. c # cs = p @ sub @ q"
    proof cases
      case 1
      then obtain t where "c # cs = sub @ t" by (auto simp: startsWith_iff)
      then have "c # cs = [] @ sub @ t" by simp
      then show ?thesis by blast
    next
      case 2
      with Cons obtain p q where "cs = p @ sub @ q" by auto
      then have "c # cs = (c # p) @ sub @ q" by simp
      then show ?thesis by blast
    qed
  next
    assume "\<exists>p q. c # cs = p @ sub @ q"
    then obtain p q where pq: "c # cs = p @ sub @ q" by blast
    show "str_includes (c # cs) sub"
    proof (cases p)
      case Nil
      with pq have "startsWith (c # cs) sub" by (auto simp: startsWith_iff)
      then show ?thesis by simp
    next
      case (Cons a p')
      with pq have "cs = p' @ sub @ q" by simp
      with Cons.IH have "str_includes cs sub" by blast
      then show ?thesis by simp
    qed
  qed
qed

section \<open>Content classifier: results\<close>

lemma follow_redirects_chain:
  "(follow_redirects net left url = Some (status, ct)) =
     (\<exists>hops final location. length hops \<le> left \<and> redirect_chain net url hops final
        \<and> net final = Answer status ct location
        \<and> \<not> (300 \<le> status \<and> status < 400 \<and> truthy location))"
proof (induction left arbitrary: url)
  case 0
  show ?case
  proof (cases "net url")
    case No_answer
    then show ?thesis by auto
  next
    case (Answer st c l)
    then show ?thesis by auto
  qed
next
  case (Suc left)
  show ?case
  proof (cases "net url")
    case No_answer
    have "\<not> redirect_chain net url hops final \<or> net final \<noteq> Answer status ct location"
      for hops final location
      using No_answer by (cases hops) auto
    with No_answer show ?thesis by auto
  next
    case (Answer st c l)
    show ?thesis
    proof (cases "300 \<le> st \<and> st < 400 \<and> truthy l")
      case False
      have "(\<exists>hops final location. length hops \<le> Suc left \<and> redirect_chain net url hops final
              \<and> net final = Answer status ct location
              \<and> \<not> (300 \<le> status \<and> status < 400 \<and> truthy location))
            = (st = status \<and> c = ct)"
      proof
        assume "\<exists>hops final location. length hops \<le> Suc left \<and> redirect_chain net url hops final
              \<and> net final = Answer status ct location
              \<and> \<not> (300 \<le> status \<and> status < 400 \<and> truthy location)"
        then obtain hops final location where h: "redirect_chain net url hops final"
          "net final = Answer status ct location" by blast
        with Answer False have "hops = []" by (cases hops) auto
        with h Answer show "st = status \<and> c = ct" by simp
      next
        assume "st = status \<and> c = ct"
        with Answer False have "length [] \<le> Suc left \<and> redirect_chain net url [] url
              \<and> net url = Answer status ct l
              \<and> \<not> (300 \<le> status \<and> status < 400 \<and> truthy l)" by simp
        then show "\<exists>hops final location. length hops \<le> Suc left \<and> redirect_chain net url hops final
              \<and> net final = Answer status ct location
              \<and> \<not> (300 \<le> status \<and> status < 400 \<and> truthy location)" by blast
      qed
      with Answer False show ?thesis by auto
    next
      case True
      have "(\<exists>hops final location. length hops \<le> Suc left \<and> redirect_chain net url hops final
              \<and> net final = Answer status ct location
              \<and> \<not> (300 \<le> status \<and> status < 400 \<and> truthy location))
            = (\<exists>hops final location. length hops \<le> left \<and> redirect_chain net (the l) hops final
              \<and> net final = Answer status ct location
              \<and> \<not> (300 \<le> status \<and> status < 400 \<and> truthy location))"
      proof
        assume "\<exists>hops final location. length hops \<le> Suc left \<and> redirect_chain net url hops final
              \<and> net final = Answer status ct location
              \<and> \<not> (300 \<le> status \<and> status < 400 \<and> truthy location)"
        then obtain hops final location where h: "length hops \<le> Suc left"
          "redirect_chain net url hops final" "net final = Answer status ct location"
          "\<not> (300 \<le> status \<and> status < 400 \<and> truthy location)" by blast
        have "hops \<noteq> []"
        proof
          assume "hops = []"
          with h(2) have "final = url" by simp
          with h(3,4) Answer True show False by simp
        qed
        then obtain hop rest where hr: "hops = hop # rest" by (cases hops) auto
        with h Answer have "length rest \<le> left \<and> redirect_chain net (the l) rest final
              \<and> net final = Answer status ct location
              \<and> \<not> (300 \<le> status \<and> status < 400 \<and> truthy location)" by auto
        then show "\<exists>hops final location. length hops \<le> left \<and> redirect_chain net (the l) hops final
              \<and> net final = Answer status ct location
              \<and> \<not> (300 \<le> status \<and> status < 400 \<and> truthy location)" by blast
      next
        assume "\<exists>hops final location. length hops \<le> left \<and> redirect_chain net (the l) hops final
              \<and> net final = Answer status ct location
              \<and> \<not> (300 \<le> status \<and> status < 400 \<and> truthy location)"
        then obtain hops final location where h: "length hops \<le> left"
          "redirect_chain net (the l) hops final" "net final = Answer status ct location"
          "\<not> (300 \<le> status \<and> status < 400 \<and> truthy location)" by blast
        with Answer True have "length (the l # hops) \<le> Suc left
              \<and> redirect_chain net url (the l # hops) final
              \<and> net final = Answer status ct location
              \<and> \<not> (300 \<le> status \<and> status < 400 \<and> truthy location)" by simp
        then show "\<exists>hops final location. length hops \<le> Suc left \<and> redirect_chain net url hops final
              \<and> net final = Answer status ct location
              \<and> \<not> (300 \<le> status \<and> status < 400 \<and> truthy location)" by blast
      qed
      with Answer True Suc.IH [of "the l"] show ?thesis by simp
    qed
  qed
qed

lemma verifyVideo_char:
  "verifyVideo (Fetched (verify_video_route maxRedirects net url)) =
     (url \<noteq> [] \<and>
      (\<exists>ct. follow_redirects net maxRedirects url = Some (200, ct) \<and>
         (str_includes (header_or_empty ct) ''video'' \<or> str_includes url ''.mp4''
          \<or> str_includes url ''.webm'')))"
  by (cases "follow_redirects net maxRedirects url")
     (auto simp: verify_video_route_def axios_head_def Let_def split: if_splits)

text \<open>
  Claim C5, as stated, fails: the route looks for \<open>.mp4\<close> and \<open>.webm\<close> anywhere in
  the URL, not at the end of its path, so a page of type \<open>text/html\<close> whose query string
  holds \<open>.mp4\<close> is declared valid although its media type is not video and its path has
  no video extension.
\<close>

theorem classifier_extension_counterexample:
  "verifyVideo (Fetched (verify_video_route 5 (static_net (Answer 200 (Some ''text/html'') None))
      ''https://h/v?f=.mp4''))
   \<and> \<not> spec_classify ''https://h/v?f=.mp4''
        (follow_redirects (static_net (Answer 200 (Some ''text/html'') None)) 5 ''https://h/v?f=.mp4'')"
  by (simp add: verify_video_route_def axios_head_def static_net_def spec_classify_def
      has_video_extension_def url_path_def endsWith_def eval_nat_numeral)

text \<open>
  Claim C5, amended: verification never throws and always answers with a boolean. It
  answers true exactly when the URL is not empty, the HEAD request, after the redirects
  the client follows (at most its limit), ends on an answer with status 200, and the
  \<open>content-type\<close> header of that answer contains \<open>video\<close> or the requested URL contains
  \<open>.mp4\<close> or \<open>.webm\<close> somewhere. A request to the application's server that fails
  gives false.
\<close>

theorem classifier_valid_iff:
  "verifyVideo (Fetched (verify_video_route maxRedirects net url)) =
     (url \<noteq> [] \<and>
      (\<exists>hops final ct location.
         length hops \<le> maxRedirects \<and> redirect_chain net url hops final
         \<and> net final = Answer 200 ct location
         \<and> (str_includes (header_or_empty ct) ''video'' \<or> str_includes url ''.mp4''
              \<or> str_includes url ''.webm'')))
   \<and> \<not> verifyVideo Fetch_error"
proof -
  have "(\<exists>ct. follow_redirects net maxRedirects url = Some (200, ct) \<and>
         (str_includes (header_or_empty ct) ''video'' \<or> str_includes url ''.mp4''
          \<or> str_includes url ''.webm''))
      = (\<exists>hops final ct location.
         length hops \<le> maxRedirects \<and> redirect_chain net url hops final
         \<and> net final = Answer 200 ct location
         \<and> (str_includes (header_or_empty ct) ''video'' \<or> str_includes url ''.mp4''
              \<or> str_includes url ''.webm''))"
    unfolding follow_redirects_chain by auto
  then show ?thesis using verifyVideo_char [of maxRedirects net url] by simp
qed

theorem classifier_valid_iff_witness:
  "verifyVideo (Fetched (verify_video_route 5
      (redirecting_net ''https://r/a'' ''https://cdn/v'' (Answer 200 (Some ''video/mp4'') None))
      ''https://r/a''))
   \<and> \<not> verifyVideo (Fetched (verify_video_route 0
      (redirecting_net ''https://r/a'' ''https://cdn/v'' (Answer 200 (Some ''video/mp4'') None))
      ''https://r/a''))
   \<and> \<not> verifyVideo (Fetched (verify_video_route 5 (static_net (Answer 404 None None))
      ''https://cdn/clip.mp4''))
   \<and> \<not> verifyVideo (Fetched (verify_video_route 5 (static_net No_answer) ''https://cdn/clip.mp4''))
   \<and> \<not> verifyVideo (Fetched (verify_video_route 5
      (static_net (Answer 200 (Some ''video/mp4'') None)) []))"
proof -
  let ?r = "redirecting_net ''https://r/a'' ''https://cdn/v'' (Answer 200 (Some ''video/mp4'') None)"
  have c: "length [''https://cdn/v''] \<le> (5::nat)
      \<and> redirect_chain ?r ''https://r/a'' [''https://cdn/v''] ''https://cdn/v''
      \<and> ?r ''https://cdn/v'' = Answer 200 (Some ''video/mp4'') None
      \<and> (str_includes (header_or_empty (Some ''video/mp4'')) ''video''
           \<or> str_includes ''https://r/a'' ''.mp4'' \<or> str_includes ''https://r/a'' ''.webm'')"
    by (simp add: redirecting_net_def)
  have 1: "verifyVideo (Fetched (verify_video_route 5 ?r ''https://r/a''))"
    using classifier_valid_iff [of 5 ?r "''https://r/a''"] c by blast
  have n: "\<not> redirect_chain ?r ''https://r/a'' hops final
           \<or> ?r final \<noteq> Answer 200 ct location \<or> \<not> length hops \<le> 0"
    for hops final ct location
    by (cases hops) (auto simp: redirecting_net_def)
  have 2: "\<not> verifyVideo (Fetched (verify_video_route 0 ?r ''https://r/a''))"
    using classifier_valid_iff [of 0 ?r "''https://r/a''"] n by blast
  have 3: "\<not> verifyVideo (Fetched (verify_video_route 5 (static_net (Answer 404 None None))
      ''https://cdn/clip.mp4''))"
    using classifier_valid_iff [of 5 "static_net (Answer 404 None None)" "''https://cdn/clip.mp4''"]
    by (simp add: static_net_def)
  have 4: "\<not> verifyVideo (Fetched (verify_video_route 5 (static_net No_answer)
      ''https://cdn/clip.mp4''))"
    using classifier_valid_iff [of 5 "static_net No_answer" "''https://cdn/clip.mp4''"]
    by (simp add: static_net_def)
  have 5: "\<not> verifyVideo (Fetched (verify_video_route 5
      (static_net (Answer 200 (Some ''video/mp4'') None)) []))"
    using classifier_valid_iff [of 5 "static_net (Answer 200 (Some ''video/mp4'') None)" "[]"]
    by simp
  from 1 2 3 4 5 show ?thesis by blast
qed

section \<open>Provider adapters: the denylist\<close>

lemma str_includes_map: "str_includes s sub \<Longrightarrow> str_includes (map f s) (map f sub)"
proof -
  assume "str_includes s sub"
  then obtain p q where "s = p @ sub @ q" by (auto simp: includes_iff)
  then have "map f s = map f p @ map f sub @ map f q" by simp
  then show ?thesis unfolding includes_iff by blast
qed

lemma forbidden_lower: "w \<in> set forbidden \<Longrightarrow> toLowerCase w = w"
  by (auto simp: forbidden_def toLowerCase_def lower_char_def)

lemma clean_no_marker:
  assumes "\<not> isWatermarked url" and "w \<in> set forbidden"
  shows "\<not> str_includes url w"
proof
  assume "str_includes url w"
  then have "str_includes (toLowerCase url) (toLowerCase w)"
    unfolding toLowerCase_def by (rule str_includes_map)
  with assms(2) have "str_includes (toLowerCase url) w" by (simp add: forbidden_lower)
  with assms(2) have "isWatermarked url" by (auto simp: isWatermarked_def list_ex_iff)
  with assms(1) show False by simp
qed

lemma follow_links_clean:
  "follow_links video links = Some u \<Longrightarrow> \<not> isWatermarked u \<and> u \<noteq> []"
  by (induction links) (auto split: visit.splits if_splits)

lemma follow_detail_pages_clean:
  "follow_detail_pages skip video links = Some u \<Longrightarrow> \<not> isWatermarked u \<and> u \<noteq> []"
  by (induction links) (auto split: visit.splits if_splits)

lemma at_index_mem: "at_index xs i = Some x \<Longrightarrow> x \<in> set xs"
  by (auto simp: at_index_def split: if_splits)

lemma set_foldl_add_to_set: "set (foldl add_to_set acc xs) = set acc \<union> set xs"
  by (induction xs arbitrary: acc) auto

lemma tryCoverr_clean: "tryCoverr wb t = Returned (Some u) \<Longrightarrow> \<not> isWatermarked u"
  by (auto simp: tryCoverr_def Let_def split: visit.splits if_splits dest: follow_links_clean)

lemma tryVidsplay_clean: "tryVidsplay wb t = Returned (Some u) \<Longrightarrow> \<not> isWatermarked u"
  by (auto simp: tryVidsplay_def Let_def split: visit.splits if_splits dest: follow_links_clean)

lemma tryPixabay_clean: "tryPixabay wb t = Returned (Some u) \<Longrightarrow> \<not> isWatermarked u"
  by (auto simp: tryPixabay_def Let_def split: visit.splits if_splits
      dest: follow_detail_pages_clean)

lemma tryMixkit_clean: "tryMixkit wb t = Returned (Some u) \<Longrightarrow> \<not> isWatermarked u"
  by (auto simp: tryMixkit_def Let_def split: visit.splits if_splits
      dest: follow_detail_pages_clean)

lemma tryVidevo_clean: "tryVidevo wb t = Returned (Some u) \<Longrightarrow> \<not> isWatermarked u"
  by (auto simp: tryVidevo_def Let_def split: visit.splits if_splits dest!: at_index_mem)

lemma tryMotionElements_clean:
  "tryMotionElements wb t = Returned (Some u) \<Longrightarrow> \<not> isWatermarked u"
  by (auto simp: tryMotionElements_def Let_def split: visit.splits if_splits dest!: at_index_mem)

lemma trySplitShire_clean: "trySplitShire wb t = Returned (Some u) \<Longrightarrow> \<not> isWatermarked u"
  by (auto simp: trySplitShire_def split: visit.splits if_splits list.splits)

lemma tryReddit_none: "tryReddit wb t \<noteq> Returned (Some u)"
  by (auto simp: tryReddit_def split: visit.splits)

lemma tryPexels_clean: "tryPexels wb t = Returned (Some u) \<Longrightarrow> \<not> isWatermarked u"
  by (auto simp: tryPexels_def Let_def collectedVideos_def set_foldl_add_to_set
      pexels_accepts_def split: visit.splits if_splits dest!: at_index_mem)

lemma sources_clean:
  assumes "a \<in> set (sources wb)" and "a t = Returned (Some u)"
  shows "\<not> isWatermarked u"
  using assms tryPexels_clean tryCoverr_clean tryVidevo_clean tryPixabay_clean tryMixkit_clean
    tryVidsplay_clean tryMotionElements_clean trySplitShire_clean tryReddit_none
  unfolding sources_def by auto

text \<open>
  Claim C9, as stated for every adapter, fails: \<open>tryPexels\<close> of the sequential variant of
  the server has no denylist, and returns a URL of a denylisted provider when that is the
  first video response of the page.
\<close>

theorem denylist_sequential_counterexample:
  "tryPexels_seq (Loaded (1, [(''https://cdn.shutterstock.com/v.mp4'', Some ''video/mp4'')]))
     = Returned (Some ''https://cdn.shutterstock.com/v.mp4'')
   \<and> str_includes ''https://cdn.shutterstock.com/v.mp4'' ''shutterstock''"
  by (simp add: tryPexels_seq_def pexels_accepts_seq_def endsWith_def)

text \<open>
  Claim C9, amended: in the parallel variant of the server (the one that defines
  \<open>isWatermarked\<close>), for every adapter of the list and every search term, a URL the
  adapter returns is not watermarked, and so contains none of the denylist markers, in
  lower case or in the case the marker is written. The adapters of the sequential variant
  apply no denylist.
\<close>

theorem denylist_parallel:
  assumes "a \<in> set (sources wb)" and "a t = Returned (Some u)"
  shows "\<not> isWatermarked u \<and> (\<forall>w \<in> set forbidden. \<not> str_includes u w)"
  using assms sources_clean clean_no_marker by blast

theorem denylist_parallel_witness:
  "tryVidevo (videvo_web [''https://cdn.shutterstock.com/sea.mp4'', ''https://cdn.videvo.net/sea.mp4''] 0) ''sea''
     = Returned (Some ''https://cdn.videvo.net/sea.mp4'')
   \<and> \<not> isWatermarked ''https://cdn.videvo.net/sea.mp4''
   \<and> \<not> str_includes ''https://cdn.videvo.net/sea.mp4'' ''shutterstock''"
proof -
  let ?wb = "videvo_web [''https://cdn.shutterstock.com/sea.mp4'', ''https://cdn.videvo.net/sea.mp4''] 0"
  have w1: "isWatermarked ''https://cdn.shutterstock.com/sea.mp4'' = True" by code_simp
  have w2: "isWatermarked ''https://cdn.videvo.net/sea.mp4'' = False" by code_simp
  have r: "tryVidevo ?wb ''sea'' = Returned (Some ''https://cdn.videvo.net/sea.mp4'')"
    by (simp add: tryVidevo_def videvo_web_def offline_web_def w1 w2 at_index_def
        random_index_def)
  have m: "tryVidevo ?wb \<in> set (sources ?wb)" by (simp add: sources_def)
  have f: "''shutterstock'' \<in> set forbidden" by (simp add: forbidden_def)
  from denylist_parallel [OF m r] f r show ?thesis by blast
qed

section \<open>Assembly engine: results\<close>

lemma merge_scenes_steps_prefix:
  "\<exists>more. snd (merge_scenes env i pairs paths steps) = steps @ more"
proof (induction pairs arbitrary: i paths steps)
  case Nil
  then show ?case by simp
next
  case (Cons p pairs)
  obtain v a where p: "p = (v, a)" by (cases p)
  obtain ok st where fa: "fetch_audio env i a = (ok, st)" by (cases "fetch_audio env i a")
  show ?case
  proof (cases "get_video env i v \<and> ok \<and> ffprobe env i \<noteq> Raised")
    case False
    then show ?thesis by (auto simp: p fa Let_def split: outcome.splits)
  next
    case True
    then obtain d where d: "ffprobe env i = Returned d" by (cases "ffprobe env i") auto
    let ?dur = "case d of None \<Rightarrow> 0 | Some x \<Rightarrow> x"
    show ?thesis
    proof (cases "encode_scene env i ?dur")
      case False
      with True d show ?thesis by (simp add: p fa Let_def)
    next
      case enc: True
      from Cons.IH [of "i + 1" "paths @ [Scene_out i]"
          "steps @ [Download_video i v, st, Probe i, Encode i ?dur]"]
      obtain more where "snd (merge_scenes env (i + 1) pairs (paths @ [Scene_out i])
          (steps @ [Download_video i v, st, Probe i, Encode i ?dur]))
          = (steps @ [Download_video i v, st, Probe i, Encode i ?dur]) @ more" by blast
      with True d enc show ?thesis by (simp add: p fa Let_def)
    qed
  qed
qed

text \<open>
  Claim C8: the route with audio rejects with a 400 reply, and without having done
  anything, every request whose clips or audios are missing, not an array, empty or of
  different lengths; for every other request the work starts (the job directory is made)
  and the reply is not a 400.
\<close>

theorem assemble_input_contract:
  "(if spec_input_contract body
    then (\<exists>more. snd (merge_videos_route env body) = Mkdir (jobId env) # more)
         \<and> (\<forall>msg. fst (merge_videos_route env body) \<noteq> Merge_400 msg)
    else (\<exists>msg. merge_videos_route env body = (Merge_400 msg, [])))"
proof (cases "spec_input_contract body")
  case False
  then show ?thesis
    by (auto simp: spec_input_contract_def merge_videos_route_def split: json_array.splits)
next
  case True
  then obtain vs as where b: "videoUrls body = Array vs" "audioUrls body = Array as"
      "vs \<noteq> []" "length as = length vs"
    by (auto simp: spec_input_contract_def split: json_array.splits)
  obtain more where m: "snd (merge_scenes env 0 (zip vs as) [] [Mkdir (jobId env)])
      = [Mkdir (jobId env)] @ more"
    using merge_scenes_steps_prefix by blast
  obtain res st where r: "merge_scenes env 0 (zip vs as) [] [Mkdir (jobId env)] = (res, st)"
    by (cases "merge_scenes env 0 (zip vs as) [] [Mkdir (jobId env)]")
  with m have st: "st = Mkdir (jobId env) # more" by simp
  from True b r st show ?thesis
    by (cases res) (auto simp: merge_videos_route_def)
qed

theorem assemble_input_contract_witness:
  "(\<exists>msg. merge_videos_route (env_failing (\<lambda>i. False) 3)
            \<lparr>videoUrls = Array [''a'', ''b''], audioUrls = Array [''n'']\<rparr> = (Merge_400 msg, []))
   \<and> (\<exists>msg. merge_videos_route (env_failing (\<lambda>i. False) 3)
            \<lparr>videoUrls = Array [], audioUrls = Array []\<rparr> = (Merge_400 msg, []))
   \<and> (\<exists>msg. merge_videos_route (env_failing (\<lambda>i. False) 3)
            \<lparr>videoUrls = Array [''a''], audioUrls = Absent\<rparr> = (Merge_400 msg, []))
   \<and> (\<exists>more. snd (merge_videos_route (env_failing (\<lambda>i. False) 3)
            \<lparr>videoUrls = Array [''a''], audioUrls = Array [''n'']\<rparr>) = Mkdir ''job'' # more)"
  using assemble_input_contract [of "\<lparr>videoUrls = Array [''a'', ''b''], audioUrls = Array [''n'']\<rparr>"
      "env_failing (\<lambda>i. False) 3"]
    assemble_input_contract [of "\<lparr>videoUrls = Array [], audioUrls = Array []\<rparr>"
      "env_failing (\<lambda>i. False) 3"]
    assemble_input_contract [of "\<lparr>videoUrls = Array [''a''], audioUrls = Absent\<rparr>"
      "env_failing (\<lambda>i. False) 3"]
    assemble_input_contract [of "\<lparr>videoUrls = Array [''a''], audioUrls = Array [''n'']\<rparr>"
      "env_failing (\<lambda>i. False) 3"]
  by (simp add: spec_input_contract_def env_failing_def)

lemma upt_shift: "[i ..< Suc (i + n)] = i # [Suc i ..< Suc (i + n)]"
  by (simp add: upt_conv_Cons del: upt_Suc)

lemma fetch_audio_not_concat: "\<not> is_concat (snd (fetch_audio env i a))"
  by (auto simp: fetch_audio_def split: option.splits)

lemma merge_scenes_result:
  "merge_scenes env i pairs paths steps = (res, st) \<Longrightarrow>
     (if all_scenes_ok env i pairs
      then res = Inr (paths @ map Scene_out [i ..< i + length pairs])
      else (\<exists>f. res = Inl f))
     \<and> (filter is_concat st = filter is_concat steps)"
proof (induction pairs arbitrary: i paths steps)
  case Nil
  then show ?case by simp
next
  case (Cons p pairs)
  obtain v a where p: "p = (v, a)" by (cases p)
  obtain ok stp where fa: "fetch_audio env i a = (ok, stp)" by (cases "fetch_audio env i a")
  have nc: "\<not> is_concat stp" using fetch_audio_not_concat [of env i a] fa by simp
  show ?case
  proof (cases "scene_steps_ok env i p")
    case False
    with Cons.prems nc show ?thesis
      by (auto simp: p fa Let_def scene_steps_ok_def split: outcome.splits if_splits)
  next
    case True
    then obtain d where d: "ffprobe env i = Returned d"
      and ok: "get_video env i v" "ok" "encode_scene env i (case d of None \<Rightarrow> 0 | Some x \<Rightarrow> x)"
      by (auto simp: p fa scene_steps_ok_def split: outcome.splits)
    let ?dur = "case d of None \<Rightarrow> 0 | Some x \<Rightarrow> x"
    from Cons.prems d ok have
      "merge_scenes env (i + 1) pairs (paths @ [Scene_out i])
         (steps @ [Download_video i v, stp, Probe i, Encode i ?dur]) = (res, st)"
      by (simp add: p fa Let_def)
    from Cons.IH [OF this] True nc show ?thesis
      by (simp add: upt_shift del: upt_Suc)
  qed
qed

lemma download_attempts_result:
  "fst (download_attempts env i u False 0 steps) = downloaded env i u"
  by (auto simp: downloaded_def Let_def eval_nat_numeral)

lemma download_all_result:
  "fst (download_all env i vs lp steps) = lp @ kept_downloads env i vs"
proof (induction vs arbitrary: i lp steps)
  case Nil
  then show ?case by simp
next
  case (Cons v vs)
  obtain dl s1 where da: "download_attempts env i v False 0 steps = (dl, s1)"
    by (cases "download_attempts env i v False 0 steps")
  then have "dl = downloaded env i v" using download_attempts_result [of env i v steps] by simp
  with da Cons.IH show ?case by simp
qed

lemma normalize_all_result:
  "normalize_all env i lp np steps = (res, st) \<Longrightarrow>
     (if all_normalized env i lp
      then res = Inr (np @ map Normalized [i ..< i + length lp])
      else (\<exists>f. res = Inl f))"
proof (induction lp arbitrary: i np steps)
  case Nil
  then show ?case by simp
next
  case (Cons p lp)
  show ?case
  proof (cases "normalize env i p")
    case False
    with Cons.prems show ?thesis by (auto simp: Let_def)
  next
    case True
    with Cons.prems have "normalize_all env (i + 1) lp (np @ [Normalized i])
        (steps @ [Normalize i p]) = (res, st)" by (simp add: Let_def)
    from Cons.IH [OF this] True show ?thesis by (simp add: upt_shift del: upt_Suc)
  qed
qed


lemma merge_route_reply:
  assumes "videoUrls body = Array vs" and "audioUrls body = Array as"
    and "vs \<noteq> []" and "length as = length vs"
  shows "(if all_scenes_ok env 0 (zip vs as)
          then fst (merge_videos_route env body) =
                 (if merge_to_file env (map Scene_out [0 ..< length vs])
                  then Merge_200 (artifact_url (jobId env)) else Merge_500 Concat_failed)
          else (\<exists>f. fst (merge_videos_route env body) = Merge_500 f)
               \<and> filter is_concat (snd (merge_videos_route env body)) = [])"
proof -
  obtain res st where r: "merge_scenes env 0 (zip vs as) [] [Mkdir (jobId env)] = (res, st)"
    by (cases "merge_scenes env 0 (zip vs as) [] [Mkdir (jobId env)]")
  from merge_scenes_result [OF r] assms r show ?thesis
    by (auto simp: merge_videos_route_def)
qed

lemma merge_route_seq_reply:
  assumes "vs \<noteq> []"
  shows "(if kept_downloads env 0 vs = []
          then fst (merge_videos_route_seq env (Array vs)) = Merge_500 Nothing_downloaded
          else if all_normalized env 0 (kept_downloads env 0 vs)
          then fst (merge_videos_route_seq env (Array vs)) =
                 (if merge_to_file env (map Normalized [0 ..< length (kept_downloads env 0 vs)])
                  then Merge_200 (artifact_url (jobId env)) else Merge_500 Concat_failed)
          else (\<exists>f. fst (merge_videos_route_seq env (Array vs)) = Merge_500 f))"
proof -
  obtain lp s1 where d: "download_all env 0 vs [] [Mkdir (jobId env)] = (lp, s1)"
    by (cases "download_all env 0 vs [] [Mkdir (jobId env)]")
  then have lp: "lp = kept_downloads env 0 vs"
    using download_all_result [of env 0 vs "[]" "[Mkdir (jobId env)]"] by simp
  obtain res st where n: "normalize_all env 0 lp [] s1 = (res, st)"
    by (cases "normalize_all env 0 lp [] s1")
  from normalize_all_result [OF n] assms d lp n show ?thesis
    by (auto simp: merge_videos_route_seq_def)
qed

text \<open>
  Claim C4, amended: in the route with audio, assembly is all-or-nothing. The reply is a
  success with the artifact URL exactly when every step of every scene succeeded and the
  concatenation succeeded; when a step of some scene fails the reply is a 500 error and
  no concatenation is attempted. In the video-only route of the other server variant a
  clip whose three download attempts all fail is skipped: the reply is a success exactly
  when at least one clip was downloaded, every downloaded clip was normalised and the
  concatenation succeeded.
\<close>

theorem assembly_all_or_nothing:
  assumes "videoUrls body = Array vs" and "audioUrls body = Array as"
    and "vs \<noteq> []" and "length as = length vs"
  shows "((fst (merge_videos_route env body) = Merge_200 url) =
            (url = artifact_url (jobId env) \<and> all_scenes_ok env 0 (zip vs as)
             \<and> merge_to_file env (map Scene_out [0 ..< length vs])))
       \<and> (\<not> all_scenes_ok env 0 (zip vs as) \<longrightarrow>
            (\<exists>f. fst (merge_videos_route env body) = Merge_500 f)
            \<and> filter is_concat (snd (merge_videos_route env body)) = [])
       \<and> ((fst (merge_videos_route_seq env (Array vs)) = Merge_200 url) =
            (url = artifact_url (jobId env) \<and> kept_downloads env 0 vs \<noteq> []
             \<and> all_normalized env 0 (kept_downloads env 0 vs)
             \<and> merge_to_file env (map Normalized [0 ..< length (kept_downloads env 0 vs)])))"
proof -
  have a: "(fst (merge_videos_route env body) = Merge_200 url) =
            (url = artifact_url (jobId env) \<and> all_scenes_ok env 0 (zip vs as)
             \<and> merge_to_file env (map Scene_out [0 ..< length vs]))"
    using merge_route_reply [OF assms, of env] by (auto split: if_splits)
  have b: "\<not> all_scenes_ok env 0 (zip vs as) \<longrightarrow>
            (\<exists>f. fst (merge_videos_route env body) = Merge_500 f)
            \<and> filter is_concat (snd (merge_videos_route env body)) = []"
    using merge_route_reply [OF assms, of env] by (auto split: if_splits)
  have c: "(fst (merge_videos_route_seq env (Array vs)) = Merge_200 url) =
            (url = artifact_url (jobId env) \<and> kept_downloads env 0 vs \<noteq> []
             \<and> all_normalized env 0 (kept_downloads env 0 vs)
             \<and> merge_to_file env (map Normalized [0 ..< length (kept_downloads env 0 vs)]))"
    using merge_route_seq_reply [OF assms(3), of env] by (auto split: if_splits)
  from a b c show ?thesis by blast
qed

text \<open>
  Claim C4, as stated for every merge job, fails on the video-only route: with two clips
  of which the first cannot be downloaded in three attempts, the job still answers with
  the URL of a final artifact, made of the second clip alone.
\<close>

theorem assembly_skips_failed_download_counterexample:
  "merge_videos_route_seq (env_failing (\<lambda>i. i = 0) 3) (Array [''a'', ''b'']) =
     (Merge_200 ''/temp/job/final_short_job.mp4'',
      [Mkdir ''job'', Download_try 0 1 ''a'', Download_try 0 2 ''a'', Download_try 0 3 ''a'',
       Download_try 1 1 ''b'', Normalize 0 (Raw_video 1), Concat [Normalized 0]])"
  by (simp add: merge_videos_route_seq_def env_failing_def artifact_url_def Let_def)

theorem assembly_all_or_nothing_witness:
  "fst (merge_videos_route (env_failing (\<lambda>i. False) 3)
          \<lparr>videoUrls = Array [''a'', ''b''], audioUrls = Array [''data:audio/wav;base64,AAAA'', ''n'']\<rparr>)
     = Merge_200 ''/temp/job/final_short_job.mp4''
   \<and> (\<exists>f. fst (merge_videos_route (env_failing (\<lambda>i. i = 1) 3)
          \<lparr>videoUrls = Array [''a'', ''b''], audioUrls = Array [''data:audio/wav;base64,AAAA'', ''n'']\<rparr>)
        = Merge_500 f)"
proof -
  let ?body = "\<lparr>videoUrls = Array [''a'', ''b''], audioUrls = Array [''data:audio/wav;base64,AAAA'', ''n'']\<rparr>"
  have ok: "all_scenes_ok (env_failing (\<lambda>i. False) 3) 0 (zip [''a'', ''b''] [''data:audio/wav;base64,AAAA'', ''n''])"
    by (simp add: scene_steps_ok_def env_failing_def fetch_audio_def at_index_def)
  have bad: "\<not> all_scenes_ok (env_failing (\<lambda>i. i = 1) 3) 0 (zip [''a'', ''b''] [''data:audio/wav;base64,AAAA'', ''n''])"
    by (simp add: scene_steps_ok_def env_failing_def fetch_audio_def at_index_def)
  have m: "merge_to_file (env_failing (\<lambda>i. False) 3) (map Scene_out [0 ..< length [''a'', ''b'']])"
    by (simp add: env_failing_def)
  from assembly_all_or_nothing [of ?body "[''a'', ''b'']" "[''data:audio/wav;base64,AAAA'', ''n'']"
      "env_failing (\<lambda>i. False) 3" "''/temp/job/final_short_job.mp4''"] ok m
  have 1: "fst (merge_videos_route (env_failing (\<lambda>i. False) 3) ?body) = Merge_200 ''/temp/job/final_short_job.mp4''"
    by (simp add: artifact_url_def env_failing_def)
  from assembly_all_or_nothing [of ?body "[''a'', ''b'']" "[''data:audio/wav;base64,AAAA'', ''n'']"
      "env_failing (\<lambda>i. i = 1) 3" "[]"] bad
  have 2: "\<exists>f. fst (merge_videos_route (env_failing (\<lambda>i. i = 1) 3) ?body) = Merge_500 f"
    by simp
  from 1 2 show ?thesis by blast
qed

lemma encode_limits_append [simp]:
  "encode_limits (xs @ ys) = encode_limits xs @ encode_limits ys"
  by (induction xs rule: encode_limits.induct) auto

lemma concat_inputs_append [simp]:
  "concat_inputs (xs @ ys) = concat_inputs xs @ concat_inputs ys"
  by (induction xs rule: concat_inputs.induct) auto

lemma fetch_audio_step:
  "fetch_audio env i a = (ok, stp) \<Longrightarrow>
     encode_limits (stp # rest) = encode_limits rest
     \<and> concat_inputs (stp # rest) = concat_inputs rest"
  by (auto simp: fetch_audio_def split: option.splits if_splits)

lemma merge_scenes_encodes:
  "merge_scenes env i pairs paths steps = (Inr out, st) \<Longrightarrow>
     encode_limits st = encode_limits steps @ map (\<lambda>j. (j, probed_duration env j)) [i ..< i + length pairs]
     \<and> concat_inputs st = concat_inputs steps"
proof (induction pairs arbitrary: i paths steps)
  case Nil
  then show ?case by simp
next
  case (Cons p pairs)
  obtain v a where p: "p = (v, a)" by (cases p)
  obtain ok stp where fa: "fetch_audio env i a = (ok, stp)" by (cases "fetch_audio env i a")
  have nc: "\<And>rest. encode_limits (stp # rest) = encode_limits rest"
    "\<And>rest. concat_inputs (stp # rest) = concat_inputs rest"
    using fetch_audio_step [OF fa] by simp_all
  from Cons.prems obtain d where d: "ffprobe env i = Returned d"
    and ok: "get_video env i v" "ok" "encode_scene env i (case d of None \<Rightarrow> 0 | Some x \<Rightarrow> x)"
    by (auto simp: p fa Let_def split: outcome.splits if_splits)
  let ?dur = "case d of None \<Rightarrow> 0 | Some x \<Rightarrow> x"
  have pd: "probed_duration env i = ?dur" by (simp add: probed_duration_def d)
  from Cons.prems d ok have
    "merge_scenes env (i + 1) pairs (paths @ [Scene_out i])
       (steps @ [Download_video i v, stp, Probe i, Encode i ?dur]) = (Inr out, st)"
    by (simp add: p fa Let_def)
  from Cons.IH [OF this] nc pd show ?case
    by (simp add: upt_shift del: upt_Suc)
qed


lemma map_of_tabulate: "i \<in> set xs \<Longrightarrow> map_of (map (\<lambda>j. (j, f j)) xs) i = Some (f i)"
  by (induction xs) auto

text \<open>
  Claim C7: a successful job of the route with audio publishes one artifact, whatever
  the number of scenes: one URL, from one concatenation whose inputs are the scene files
  of all the input pairs in input order. Every scene is encoded with the time limit set
  to the probed duration of its narration (0 when the probe reports none), never to a
  duration of the clip. With the encoder as the specification has it, the artifact lasts
  the sum of the narration durations, so within one encoding frame of it.
\<close>

theorem assembly_one_artifact_duration:
  assumes b: "videoUrls body = Array vs" "audioUrls body = Array as"
      "vs \<noteq> []" "length as = length vs"
    and ok: "fst (merge_videos_route env body) = Merge_200 url"
  shows "url = artifact_url (jobId env)
     \<and> concat_inputs (snd (merge_videos_route env body)) = [map Scene_out [0 ..< length vs]]
     \<and> encode_limits (snd (merge_videos_route env body)) =
           map (\<lambda>i. (i, probed_duration env i)) [0 ..< length vs]
     \<and> artifact_durations (snd (merge_videos_route env body)) =
           [sum_list (map (probed_duration env) [0 ..< length vs])]
     \<and> (\<exists>d. artifact_durations (snd (merge_videos_route env body)) = [d]
            \<and> \<bar>d - sum_list (map (probed_duration env) [0 ..< length vs])\<bar> \<le> frame_duration)"
proof -
  let ?n = "length vs"
  obtain res st where r: "merge_scenes env 0 (zip vs as) [] [Mkdir (jobId env)] = (res, st)"
    by (cases "merge_scenes env 0 (zip vs as) [] [Mkdir (jobId env)]")
  from ok b r obtain paths where res: "res = Inr paths"
    by (cases res) (auto simp: merge_videos_route_def)
  from merge_scenes_result [OF r] res b have paths: "paths = map Scene_out [0 ..< ?n]"
    by (auto split: if_splits)
  from ok b r res have route: "merge_videos_route env body
      = (Merge_200 (artifact_url (jobId env)), st @ [Concat paths])"
    by (auto simp: merge_videos_route_def split: if_splits)
  from merge_scenes_encodes [OF r [unfolded res]] b have
    enc: "encode_limits st = map (\<lambda>j. (j, probed_duration env j)) [0 ..< ?n]"
    and cc: "concat_inputs st = []" by simp_all
  have url: "url = artifact_url (jobId env)" using ok route by simp
  have ci: "concat_inputs (st @ [Concat paths]) = [map Scene_out [0 ..< ?n]]"
    using cc paths by simp
  have el: "encode_limits (st @ [Concat paths]) = map (\<lambda>j. (j, probed_duration env j)) [0 ..< ?n]"
    using enc by simp
  have sf: "scene_file_duration (st @ [Concat paths]) (Scene_out i) = probed_duration env i"
    if "i < ?n" for i
    using that el map_of_tabulate [of i "[0 ..< ?n]" "probed_duration env"]
    by (simp add: scene_file_duration_def segment_duration_def)
  have m: "map (scene_file_duration (st @ [Concat paths])) (map Scene_out [0 ..< ?n])
        = map (probed_duration env) [0 ..< ?n]"
    by (auto simp: sf)
  have "artifact_durations (st @ [Concat paths])
        = [concat_duration (map (scene_file_duration (st @ [Concat paths]))
             (map Scene_out [0 ..< ?n]))]"
    unfolding artifact_durations_def ci by simp
  then have ad: "artifact_durations (st @ [Concat paths])
        = [sum_list (map (probed_duration env) [0 ..< ?n])]"
    unfolding m concat_duration_def .
  have fr: "0 \<le> frame_duration" by (simp add: frame_duration_def)
  from url ci el ad fr route show ?thesis by simp
qed

theorem assembly_one_artifact_duration_witness:
  "merge_videos_route (env_failing (\<lambda>i. False) 3)
      \<lparr>videoUrls = Array [''a'', ''b''], audioUrls = Array [''data:audio/wav;base64,AAAA'', ''n'']\<rparr>
     = (Merge_200 ''/temp/job/final_short_job.mp4'',
        [Mkdir ''job'', Download_video 0 ''a'', Write_audio 0, Probe 0, Encode 0 3,
         Download_video 1 ''b'', Download_audio 1 ''n'', Probe 1, Encode 1 3,
         Concat [Scene_out 0, Scene_out 1]])
   \<and> artifact_durations (snd (merge_videos_route (env_failing (\<lambda>i. False) 3)
      \<lparr>videoUrls = Array [''a'', ''b''], audioUrls = Array [''data:audio/wav;base64,AAAA'', ''n'']\<rparr>))
     = [6]"
proof -
  let ?env = "env_failing (\<lambda>i. False) 3"
  let ?body = "\<lparr>videoUrls = Array [''a'', ''b''], audioUrls = Array [''data:audio/wav;base64,AAAA'', ''n'']\<rparr>"
  have run: "merge_videos_route ?env ?body
     = (Merge_200 ''/temp/job/final_short_job.mp4'',
        [Mkdir ''job'', Download_video 0 ''a'', Write_audio 0, Probe 0, Encode 0 3,
         Download_video 1 ''b'', Download_audio 1 ''n'', Probe 1, Encode 1 3,
         Concat [Scene_out 0, Scene_out 1]])"
    by (simp add: merge_videos_route_def env_failing_def fetch_audio_def at_index_def
        artifact_url_def Let_def)
  then have ok: "fst (merge_videos_route ?env ?body) = Merge_200 ''/temp/job/final_short_job.mp4''"
    by simp
  have pd: "probed_duration ?env 0 = 3" "probed_duration ?env 1 = 3"
    by (simp_all add: probed_duration_def env_failing_def)
  from assembly_one_artifact_duration [of ?body "[''a'', ''b'']"
      "[''data:audio/wav;base64,AAAA'', ''n'']" ?env "''/temp/job/final_short_job.mp4''"] ok
  have "artifact_durations (snd (merge_videos_route ?env ?body))
        = [sum_list (map (probed_duration ?env) [0 ..< length [''a'', ''b'']])]"
    by simp
  then have "artifact_durations (snd (merge_videos_route ?env ?body)) = [6]"
    using pd by (simp add: upt_conv_Cons del: upt_Suc)
  with run show ?thesis by simp
qed

section \<open>Scene pipeline: generation\<close>

declare gen_attempts.simps [simp del]

text \<open>The first attempt of the loop, and the second.\<close>

lemma gen_attempts_done: "gen_attempts sv i sc True n (w, tr) = (sc, (w, tr))"
  by (simp add: gen_attempts.simps)

lemma gen_attempts_last: "2 \<le> n \<Longrightarrow> gen_attempts sv i sc f n (w, tr) = (sc, (w, tr))"
  by (simp add: gen_attempts.simps maxAttempts_def)

lemma gen_attempts_second:
  "gen_attempts sv i sc False (Suc 0) (w, tr) =
     (case resolve sv (imagePrompt sc) w of (url, w1) \<Rightarrow>
        if truthy url then
          (case verify sv (the url) w1 of (isValid, w2) \<Rightarrow>
             (if isValid then sc\<lparr>videoUrl := url\<rparr> else sc,
              (w2, tr @ [Delay_call 2000, Resolve_call (imagePrompt sc), Verify_call (the url)])))
        else (sc, (w1, tr @ [Delay_call 2000, Resolve_call (imagePrompt sc)])))"
  by (subst gen_attempts.simps)
     (auto simp: maxAttempts_def Let_def gen_attempts_done gen_attempts_last split: prod.splits)

lemma gen_attempts_first:
  "gen_attempts sv i sc False 0 (w, tr) =
     (case resolve sv (imagePrompt sc) w of (url, w1) \<Rightarrow>
        (let tr1 = tr @ (if i > 0 then [Delay_call 2000] else []) @ [Resolve_call (imagePrompt sc)]
         in if truthy url then
              (case verify sv (the url) w1 of (isValid, w2) \<Rightarrow>
                 if isValid then (sc\<lparr>videoUrl := url\<rparr>, (w2, tr1 @ [Verify_call (the url)]))
                 else gen_attempts sv i sc False (Suc 0) (w2, tr1 @ [Verify_call (the url)]))
            else gen_attempts sv i sc False (Suc 0) (w1, tr1)))"
  by (subst gen_attempts.simps)
     (auto simp: maxAttempts_def Let_def gen_attempts_done split: prod.splits)


lemma truthy_iff: "truthy x = (\<exists>u. x = Some u \<and> u \<noteq> [])"
  by (cases x) auto

lemma resolve_count_append [simp]:
  "resolve_count (xs @ ys) = resolve_count xs + resolve_count ys"
  by (simp add: resolve_count_def)

lemma resolve_count_simps [simp]:
  "resolve_count [] = 0"
  "resolve_count (Resolve_call q # xs) = Suc (resolve_count xs)"
  "resolve_count (Verify_call u # xs) = resolve_count xs"
  "resolve_count (Delay_call n # xs) = resolve_count xs"
  by (simp_all add: resolve_count_def)

text \<open>What one attempt does: the calls it adds, whether it found a clip, and the scene.\<close>

lemma second_attempt:
  assumes "gen_attempts sv i sc False (Suc 0) (x, t) = (sc', (x', t'))"
  shows "\<exists>new. t' = t @ new \<and> resolve_count new = 1
      \<and> (sc' = sc \<or> (\<exists>u x. u \<noteq> [] \<and> sc' = sc\<lparr>videoUrl := Some u\<rparr> \<and> Verify_call u \<in> set new \<and> fst (verify sv u x)))"
proof -
  obtain r y where R: "resolve sv (imagePrompt sc) x = (r, y)"
    by (cases "resolve sv (imagePrompt sc) x")
  show ?thesis
  proof (cases "truthy r")
    case False
    with assms R show ?thesis by (auto simp: gen_attempts_second)
  next
    case True
    then obtain u where u: "r = Some u" "u \<noteq> []" by (auto simp: truthy_iff)
    obtain v z where V: "verify sv u y = (v, z)" by (cases "verify sv u y")
    show ?thesis
    proof (cases v)
      case True
      with assms R u V have res: "sc' = sc\<lparr>videoUrl := Some u\<rparr>"
        "t' = t @ [Delay_call 2000, Resolve_call (imagePrompt sc), Verify_call u]"
        by (auto simp: gen_attempts_second)
      have fv: "fst (verify sv u y)" using V True by simp
      show ?thesis
        apply (rule exI [of _ "[Delay_call 2000, Resolve_call (imagePrompt sc), Verify_call u]"])
        using res u fv by auto
    next
      case False
      with assms R u V show ?thesis by (auto simp: gen_attempts_second)
    qed
  qed
qed

lemma second_attempt_degraded:
  assumes "gen_attempts sv i sc False (Suc 0) (x, t) = (sc', (x', t'))"
    and "\<And>u y. \<not> fst (verify sv u y)"
  shows "sc' = sc"
proof -
  obtain r y where R: "resolve sv (imagePrompt sc) x = (r, y)"
    by (cases "resolve sv (imagePrompt sc) x")
  show ?thesis
  proof (cases "truthy r")
    case False
    with assms R show ?thesis by (auto simp: gen_attempts_second)
  next
    case True
    then obtain u where u: "r = Some u" "u \<noteq> []" by (auto simp: truthy_iff)
    obtain v z where V: "verify sv u y = (v, z)" by (cases "verify sv u y")
    with assms(2) [of u y] have "\<not> v" by simp
    with assms R u V show ?thesis by (simp add: gen_attempts_second)
  qed
qed

lemma gen_attempts_bound:
  assumes run: "gen_attempts sv i sc False 0 (w, tr) = (sc', (w', tr'))"
  shows "\<exists>new. tr' = tr @ new
      \<and> 1 \<le> resolve_count new \<and> resolve_count new \<le> maxAttempts
      \<and> Resolve_call (imagePrompt sc) \<in> set new
      \<and> (sc' = sc \<and> resolve_count new = 2
          \<or> (\<exists>u x. u \<noteq> [] \<and> sc' = sc\<lparr>videoUrl := Some u\<rparr> \<and> Verify_call u \<in> set new \<and> fst (verify sv u x)))
      \<and> (\<forall>u w1. resolve sv (imagePrompt sc) w = (Some u, w1) \<and> u \<noteq> [] \<and> fst (verify sv u w1)
            \<longrightarrow> sc' = sc\<lparr>videoUrl := Some u\<rparr> \<and> resolve_count new = 1)
      \<and> ((\<forall>u y. \<not> fst (verify sv u y)) \<longrightarrow> sc' = sc)"
proof -
  let ?p = "imagePrompt sc"
  let ?d = "if i > 0 then [Delay_call 2000] else []"
  obtain r w1 where R: "resolve sv ?p w = (r, w1)" by (cases "resolve sv ?p w")
  have tr1: "(if i > 0 then tr @ [Delay_call 2000] else tr) @ [Resolve_call ?p]
               = tr @ ?d @ [Resolve_call ?p]" by simp
  show ?thesis
  proof (cases "truthy r")
    case False
    with run R have 2: "gen_attempts sv i sc False (Suc 0) (w1, tr @ ?d @ [Resolve_call ?p]) = (sc', (w', tr'))"
      by (simp add: gen_attempts_first Let_def)
    from second_attempt [OF 2] obtain new2 where n2: "tr' = (tr @ ?d @ [Resolve_call ?p]) @ new2"
      "resolve_count new2 = 1"
      "sc' = sc \<or> (\<exists>u x. u \<noteq> [] \<and> sc' = sc\<lparr>videoUrl := Some u\<rparr> \<and> Verify_call u \<in> set new2 \<and> fst (verify sv u x))"
      by blast
    have deg: "(\<forall>u y. \<not> fst (verify sv u y)) \<longrightarrow> sc' = sc"
      using second_attempt_degraded [OF 2] by blast
    from False R have nofirst: "\<not> (\<exists>u w1. resolve sv ?p w = (Some u, w1) \<and> u \<noteq> [])"
      by (auto simp: truthy_iff)
    show ?thesis
      apply (rule exI [of _ "?d @ [Resolve_call ?p] @ new2"])
      using n2 deg nofirst by (auto simp: maxAttempts_def)
  next
    case True
    then obtain u where u: "r = Some u" "u \<noteq> []" by (auto simp: truthy_iff)
    obtain v w2 where V: "verify sv u w1 = (v, w2)" by (cases "verify sv u w1")
    show ?thesis
    proof (cases v)
      case True
      with run R u V have res: "sc' = sc\<lparr>videoUrl := Some u\<rparr>"
        "tr' = tr @ ?d @ [Resolve_call ?p, Verify_call u]"
        by (auto simp: gen_attempts_first Let_def)
      have fv: "fst (verify sv u w1)" using V True by simp
      then have "(\<forall>u y. \<not> fst (verify sv u y)) \<longrightarrow> sc' = sc" by blast
      with res R u fv show ?thesis
        apply (intro exI [of _ "?d @ [Resolve_call ?p, Verify_call u]"])
        by (auto simp: maxAttempts_def)
    next
      case False
      with run R u V have 2: "gen_attempts sv i sc False (Suc 0)
          (w2, tr @ ?d @ [Resolve_call ?p, Verify_call u]) = (sc', (w', tr'))"
        by (auto simp: gen_attempts_first Let_def)
      from second_attempt [OF 2] obtain new2 where
        n2: "tr' = (tr @ ?d @ [Resolve_call ?p, Verify_call u]) @ new2"
        "resolve_count new2 = 1"
        "sc' = sc \<or> (\<exists>u x. u \<noteq> [] \<and> sc' = sc\<lparr>videoUrl := Some u\<rparr> \<and> Verify_call u \<in> set new2 \<and> fst (verify sv u x))"
        by blast
      have deg: "(\<forall>u y. \<not> fst (verify sv u y)) \<longrightarrow> sc' = sc"
        using second_attempt_degraded [OF 2] by blast
      from False R u V have nofirst:
        "\<not> (\<exists>u w1. resolve sv ?p w = (Some u, w1) \<and> u \<noteq> [] \<and> fst (verify sv u w1))"
        by auto
      show ?thesis
        apply (rule exI [of _ "?d @ [Resolve_call ?p, Verify_call u] @ new2"])
        using n2 deg nofirst by (auto simp: maxAttempts_def)
    qed
  qed
qed


lemma generate_scenes_progress:
  "generate_scenes sv i scs (w, tr) = (scs', (w', tr')) \<Longrightarrow>
     length scs' = length scs
     \<and> (\<exists>new. tr' = tr @ new \<and> length scs \<le> resolve_count new
            \<and> resolve_count new \<le> maxAttempts * length scs)"
proof (induction scs arbitrary: i w tr scs' w' tr')
  case Nil
  then show ?case by simp
next
  case (Cons sc scs)
  obtain sc1 w1 tr1 where h: "gen_attempts sv i sc False 0 (w, tr) = (sc1, (w1, tr1))"
    by (metis prod_cases3)
  obtain rest1 w2 tr2 where t: "generate_scenes sv (i + 1) scs (w1, tr1) = (rest1, (w2, tr2))"
    by (metis prod_cases3)
  from Cons.prems h t have out: "scs' = sc1 # rest1" "w' = w2" "tr' = tr2" by auto
  from gen_attempts_bound [OF h] obtain new where
    n: "tr1 = tr @ new" "1 \<le> resolve_count new" "resolve_count new \<le> maxAttempts" by blast
  from Cons.IH [OF t] obtain later where
    l: "length rest1 = length scs" "tr2 = tr1 @ later" "length scs \<le> resolve_count later"
      "resolve_count later \<le> maxAttempts * length scs" by blast
  show ?case
    apply (rule conjI)
    using out l apply simp
    apply (rule exI [of _ "new @ later"])
    using out n l by simp
qed

lemma generate_scenes_append:
  "generate_scenes sv i (xs @ ys) r =
     (case generate_scenes sv i xs r of (xs', r1) \<Rightarrow>
        (case generate_scenes sv (i + length xs) ys r1 of (ys', r2) \<Rightarrow> (xs' @ ys', r2)))"
  by (induction xs arbitrary: i r) (auto split: prod.splits)

text \<open>
  Claim C6: take any scene of the list handed to the generation loop, with the scenes
  before it and after it. When the loop reaches it, the scene gets at least one and at
  most two resolve calls. If its first resolved clip passes verification, that clip is
  stored and there is exactly one resolve call. A clip is stored only when it was
  verified; a scene for which no attempt gives a verified clip is left as it was
  (degraded) after exactly two resolve calls. In every case the loop goes on with the
  scenes after it, from the state the scene left.
\<close>

theorem generation_retries_bounded:
  assumes pre: "generate_scenes sv i pre (w, tr) = (pre', (w1, tr1))"
  shows "\<exists>sc' w2 new post' r'.
      generate_scenes sv i (pre @ sc # post) (w, tr) = (pre' @ sc' # post', r')
      \<and> generate_scenes sv (i + length pre + 1) post (w2, tr1 @ new) = (post', r')
      \<and> length pre' = length pre \<and> length post' = length post
      \<and> 1 \<le> resolve_count new \<and> resolve_count new \<le> maxAttempts
      \<and> (sc' = sc \<and> resolve_count new = 2
          \<or> (\<exists>u x. u \<noteq> [] \<and> sc' = sc\<lparr>videoUrl := Some u\<rparr> \<and> Verify_call u \<in> set new \<and> fst (verify sv u x)))
      \<and> (\<forall>u x. resolve sv (imagePrompt sc) w1 = (Some u, x) \<and> u \<noteq> [] \<and> fst (verify sv u x)
            \<longrightarrow> sc' = sc\<lparr>videoUrl := Some u\<rparr> \<and> resolve_count new = 1)
      \<and> ((\<forall>u y. \<not> fst (verify sv u y)) \<longrightarrow> sc' = sc)"
proof -
  obtain sc1 w2 tr2 where h: "gen_attempts sv (i + length pre) sc False 0 (w1, tr1) = (sc1, (w2, tr2))"
    by (metis prod_cases3)
  obtain post1 r3 where t: "generate_scenes sv (i + length pre + 1) post (w2, tr2) = (post1, r3)"
    by (cases "generate_scenes sv (i + length pre + 1) post (w2, tr2)")
  obtain w3 tr3 where r3: "r3 = (w3, tr3)" by (cases r3)
  from pre h t have run: "generate_scenes sv i (pre @ sc # post) (w, tr) = (pre' @ sc1 # post1, r3)"
    by (simp add: generate_scenes_append)
  from gen_attempts_bound [OF h] obtain new where
    n: "tr2 = tr1 @ new" "1 \<le> resolve_count new" "resolve_count new \<le> maxAttempts"
    "sc1 = sc \<and> resolve_count new = 2
       \<or> (\<exists>u x. u \<noteq> [] \<and> sc1 = sc\<lparr>videoUrl := Some u\<rparr> \<and> Verify_call u \<in> set new \<and> fst (verify sv u x))"
    "\<forall>u x. resolve sv (imagePrompt sc) w1 = (Some u, x) \<and> u \<noteq> [] \<and> fst (verify sv u x)
            \<longrightarrow> sc1 = sc\<lparr>videoUrl := Some u\<rparr> \<and> resolve_count new = 1"
    "(\<forall>u y. \<not> fst (verify sv u y)) \<longrightarrow> sc1 = sc"
    by blast
  from generate_scenes_progress [OF pre] have lp: "length pre' = length pre" by simp
  from generate_scenes_progress [OF t [unfolded r3]] have lq: "length post1 = length post" by simp
  show ?thesis
    apply (rule exI [of _ sc1], rule exI [of _ w2], rule exI [of _ new], rule exI [of _ post1],
        rule exI [of _ r3])
    using run t n lp lq by simp
qed

theorem generation_retries_bounded_witness:
  "\<exists>sc' new.
      generate_scenes (steady_services (\<lambda>q. Some ''u'') (\<lambda>u. True) True None) 0
        [scene_with ''sea'' None, scene_with ''sky'' None] ((), [])
      = ([scene_with ''sea'' (Some ''u''), sc'],
         ((), [Resolve_call ''sea'', Verify_call ''u''] @ new))
      \<and> sc' = scene_with ''sky'' (Some ''u'')
      \<and> resolve_count new = 1"
proof -
  let ?sv = "steady_services (\<lambda>q. Some ''u'') (\<lambda>u. True) True None"
  have pre: "generate_scenes ?sv 0 [scene_with ''sea'' None] ((), [])
      = ([scene_with ''sea'' (Some ''u'')], ((), [Resolve_call ''sea'', Verify_call ''u'']))"
    by (simp add: gen_attempts_first steady_services_def scene_with_def)
  have first: "resolve ?sv (imagePrompt (scene_with ''sky'' None)) () = (Some ''u'', ())
      \<and> ''u'' \<noteq> [] \<and> fst (verify ?sv ''u'' ())"
    by (simp add: steady_services_def)
  from generation_retries_bounded [OF pre, of "scene_with ''sky'' None" "[]"]
  obtain sc' w2 new post' r' where
    a: "generate_scenes ?sv 0 ([scene_with ''sea'' None] @ scene_with ''sky'' None # []) ((), [])
          = ([scene_with ''sea'' (Some ''u'')] @ sc' # post', r')"
    and b: "generate_scenes ?sv (0 + length [scene_with ''sea'' None] + 1) []
          (w2, [Resolve_call ''sea'', Verify_call ''u''] @ new) = (post', r')"
    and c: "\<forall>u x. resolve ?sv (imagePrompt (scene_with ''sky'' None)) () = (Some u, x)
             \<and> u \<noteq> [] \<and> fst (verify ?sv u x)
            \<longrightarrow> sc' = (scene_with ''sky'' None)\<lparr>videoUrl := Some u\<rparr> \<and> resolve_count new = 1"
    by blast
  from c first have d: "sc' = (scene_with ''sky'' None)\<lparr>videoUrl := Some ''u''\<rparr>"
    "resolve_count new = 1" by blast+
  from b have e: "post' = []" "r' = ((), [Resolve_call ''sea'', Verify_call ''u''] @ new)" by auto
  from a d e show ?thesis by (simp add: scene_with_def)
qed

section \<open>Scene pipeline: export\<close>

lemma verified_urls_append [simp]: "verified_urls (xs @ ys) = verified_urls xs @ verified_urls ys"
  by (induction xs rule: verified_urls.induct) auto

lemma finalUrls_Cons:
  "finalUrls (sc # scs) = (if truthy (videoUrl sc) then [the (videoUrl sc)] else []) @ finalUrls scs"
  by (simp add: finalUrls_def)

lemma finalUrls_append [simp]: "finalUrls (xs @ ys) = finalUrls xs @ finalUrls ys"
  by (simp add: finalUrls_def)

text \<open>The recheck of one scene, by cases.\<close>

lemma export_scene_cases:
  assumes "export_scene sv sc (w, tr) = (sc', (w', tr'))"
  shows "\<exists>new. tr' = tr @ new
     \<and> verified_urls new = (if truthy (videoUrl sc) then [the (videoUrl sc)] else [])
     \<and> filter is_merge new = [] \<and> filter is_confirm new = []
     \<and> (sc' = sc \<or> (\<exists>u. u \<noteq> [] \<and> sc' = sc\<lparr>videoUrl := Some u\<rparr>))"
proof -
  let ?u = "videoUrl sc"
  obtain v w1 where V: "verify sv (the ?u) w = (v, w1)" by (cases "verify sv (the ?u) w")
  obtain r1 x1 where R1: "resolve sv (imagePrompt sc) w1 = (r1, x1)"
    by (cases "resolve sv (imagePrompt sc) w1")
  obtain r0 x0 where R0: "resolve sv (imagePrompt sc) w = (r0, x0)"
    by (cases "resolve sv (imagePrompt sc) w")
  from assms V R1 R0 show ?thesis
    by (auto simp: export_scene_def Let_def truthy_iff split: if_splits)
qed

lemma export_scene_recovered:
  assumes run: "export_scene sv sc (w, tr) = (sc', (w', tr'))"
    and bad: "\<not> (truthy (videoUrl sc) \<and> fst (verify sv (the (videoUrl sc)) w))"
    and rec: "resolve sv (imagePrompt sc)
               (if truthy (videoUrl sc) then snd (verify sv (the (videoUrl sc)) w) else w)
              = (Some u, w2)"
    and u: "u \<noteq> []"
  shows "sc' = sc\<lparr>videoUrl := Some u\<rparr>"
proof -
  obtain v w1 where V: "verify sv (the (videoUrl sc)) w = (v, w1)"
    by (cases "verify sv (the (videoUrl sc)) w")
  from run bad rec u V show ?thesis
    by (auto simp: export_scene_def Let_def split: if_splits)
qed

lemma export_recheck_trace:
  "export_recheck sv scs (w, tr) = (out, (w', tr')) \<Longrightarrow>
     length out = length scs
     \<and> (\<exists>new. tr' = tr @ new \<and> verified_urls new = finalUrls scs
            \<and> filter is_merge new = [] \<and> filter is_confirm new = [])"
proof (induction scs arbitrary: w tr out w' tr')
  case Nil
  then show ?case by (simp add: finalUrls_def)
next
  case (Cons sc scs)
  obtain sc1 w1 tr1 where h: "export_scene sv sc (w, tr) = (sc1, (w1, tr1))"
    by (metis prod_cases3)
  obtain rest1 w2 tr2 where t: "export_recheck sv scs (w1, tr1) = (rest1, (w2, tr2))"
    by (metis prod_cases3)
  from Cons.prems h t have out: "out = sc1 # rest1" "tr' = tr2" by auto
  from export_scene_cases [OF h] obtain new where
    n: "tr1 = tr @ new"
       "verified_urls new = (if truthy (videoUrl sc) then [the (videoUrl sc)] else [])"
       "filter is_merge new = []" "filter is_confirm new = []" by blast
  from Cons.IH [OF t] obtain later where
    l: "length rest1 = length scs" "tr2 = tr1 @ later" "verified_urls later = finalUrls scs"
       "filter is_merge later = []" "filter is_confirm later = []" by blast
  show ?case
    apply (rule conjI)
    using out l apply simp
    apply (rule exI [of _ "new @ later"])
    using out n l by (simp add: finalUrls_Cons)
qed

lemma export_recheck_append:
  "export_recheck sv (xs @ ys) r =
     (case export_recheck sv xs r of (xs', r1) \<Rightarrow>
        (case export_recheck sv ys r1 of (ys', r2) \<Rightarrow> (xs' @ ys', r2)))"
  by (induction xs arbitrary: r) (auto split: prod.splits)


lemma in_finalUrls: "sc \<in> set scs \<Longrightarrow> videoUrl sc = Some u \<Longrightarrow> u \<noteq> [] \<Longrightarrow> u \<in> set (finalUrls scs)"
  by (force simp: finalUrls_def)

lemma recheck_recovered_scene:
  assumes pre: "export_recheck sv pre (w, tr) = (pre', (w1, tr1))"
    and bad: "\<not> (truthy (videoUrl sc) \<and> fst (verify sv (the (videoUrl sc)) w1))"
    and rec: "resolve sv (imagePrompt sc)
               (if truthy (videoUrl sc) then snd (verify sv (the (videoUrl sc)) w1) else w1)
              = (Some u, w2)"
    and u: "u \<noteq> []"
    and run: "export_recheck sv (pre @ sc # post) (w, tr) = (out, r)"
  shows "length out = length (pre @ sc # post) \<and> out ! length pre = sc\<lparr>videoUrl := Some u\<rparr>"
proof -
  obtain sc1 wa tra where h: "export_scene sv sc (w1, tr1) = (sc1, (wa, tra))"
    by (metis prod_cases3)
  obtain post1 rb where t: "export_recheck sv post (wa, tra) = (post1, rb)"
    by (cases "export_recheck sv post (wa, tra)")
  from export_scene_recovered [OF h bad rec u] have sc1: "sc1 = sc\<lparr>videoUrl := Some u\<rparr>" .
  from run pre h t have out: "out = pre' @ sc1 # post1"
    by (simp add: export_recheck_append)
  from export_recheck_trace [OF pre] have lp: "length pre' = length pre" by simp
  obtain wb trb where rb: "rb = (wb, trb)" by (cases rb)
  from export_recheck_trace [OF t [unfolded rb]] have lq: "length post1 = length post" by simp
  from out sc1 lp lq show ?thesis by (simp add: nth_append)
qed

text \<open>
  Claim C10: at export time a URL that the recovery resolve returns is accepted without
  being verified. For a scene whose stored clip is missing or fails the export-time
  verification, if the recovery resolve returns a URL (a non-empty string), that URL is
  stored on the scene, it is among the URLs the gate counts, so the export is not
  refused, and it is in the input of the merge call when one is made. The URLs verified
  during the export are exactly the URLs the scenes held before it.
\<close>

theorem recovered_clip_accepted_unverified:
  assumes sc: "scenes p = pre @ sc # post"
    and pre: "export_recheck sv pre (w, tr) = (pre', (w1, tr1))"
    and bad: "\<not> (truthy (videoUrl sc) \<and> fst (verify sv (the (videoUrl sc)) w1))"
    and rec: "resolve sv (imagePrompt sc)
               (if truthy (videoUrl sc) then snd (verify sv (the (videoUrl sc)) w1) else w1)
              = (Some u, w2)"
    and u: "u \<noteq> []"
    and run: "handleExport sv (Some p) (w, tr) = (outcome, p', (w', tr'))"
  shows "\<exists>q new. p' = Some q \<and> tr' = tr @ new
      \<and> length (scenes q) = length (scenes p)
      \<and> scenes q ! length pre = sc\<lparr>videoUrl := Some u\<rparr>
      \<and> u \<in> set (finalUrls (scenes q))
      \<and> outcome \<noteq> Refused
      \<and> (\<forall>us. Merge_call us \<in> set new \<longrightarrow> u \<in> set us)
      \<and> verified_urls new = finalUrls (scenes p)"
proof -
  obtain out wx trx where ck: "export_recheck sv (scenes p) (w, tr) = (out, (wx, trx))"
    by (metis prod_cases3)
  from recheck_recovered_scene [OF pre bad rec u ck [unfolded sc]]
  have o: "length out = length (scenes p)" "out ! length pre = sc\<lparr>videoUrl := Some u\<rparr>"
    by (simp_all add: sc)
  from o(1) have "length pre < length out" by (simp add: sc)
  then have "out ! length pre \<in> set out" by (rule nth_mem)
  with o(2) u have fin: "u \<in> set (finalUrls out)" by (auto intro: in_finalUrls)
  then have ne: "finalUrls out \<noteq> []" by auto
  from export_recheck_trace [OF ck] obtain new0 where
    n0: "trx = tr @ new0" "verified_urls new0 = finalUrls (scenes p)"
        "filter is_merge new0 = []" by blast
  then have nm: "\<And>us. Merge_call us \<notin> set new0"
    by (metis filter_empty_conv is_merge.simps(1))
  obtain ans wc where cf: "confirm sv (length (finalUrls out)) (length out) wx = (ans, wc)"
    by (cases "confirm sv (length (finalUrls out)) (length out) wx")
  obtain m1 wd where m1: "merge sv (finalUrls out) wx = (m1, wd)"
    by (cases "merge sv (finalUrls out) wx")
  obtain m2 we where m2: "merge sv (finalUrls out) wc = (m2, we)"
    by (cases "merge sv (finalUrls out) wc")
  from run ck ne cf m1 m2 o fin n0 nm show ?thesis
    by (auto simp: handleExport_def Let_def split: if_splits)
qed

text \<open>
  The gate of \<open>handleExport\<close> is on the number of scenes that hold a URL after the
  recheck: none, the export is refused with no confirmation and no merge; some but not
  all, one confirmation is asked and the merge is called only when it is given; all, the
  merge is called with no confirmation.
\<close>

lemma export_gate_on_held_urls:
  assumes ck: "export_recheck sv (scenes p) (w, tr) = (out, (w1, tr1))"
    and run: "handleExport sv (Some p) (w, tr) = (outcome, p', (w', tr'))"
  shows "(length (finalUrls out) = 0 \<longrightarrow>
           outcome = Refused \<and> filter is_merge tr' = filter is_merge tr
           \<and> filter is_confirm tr' = filter is_confirm tr)
       \<and> (0 < length (finalUrls out) \<and> length (finalUrls out) < length out \<longrightarrow>
           filter is_confirm tr' =
             filter is_confirm tr @ [Confirm_call (length (finalUrls out)) (length out)]
           \<and> (if fst (confirm sv (length (finalUrls out)) (length out) w1)
              then filter is_merge tr' = filter is_merge tr @ [Merge_call (finalUrls out)]
              else outcome = Declined \<and> filter is_merge tr' = filter is_merge tr))
       \<and> (0 < length (finalUrls out) \<and> length (finalUrls out) = length out \<longrightarrow>
           filter is_confirm tr' = filter is_confirm tr
           \<and> filter is_merge tr' = filter is_merge tr @ [Merge_call (finalUrls out)])"
proof -
  from export_recheck_trace [OF ck] obtain new0 where
    n0: "tr1 = tr @ new0" "filter is_merge new0 = []" "filter is_confirm new0 = []" by blast
  obtain ans wc where cf: "confirm sv (length (finalUrls out)) (length out) w1 = (ans, wc)"
    by (cases "confirm sv (length (finalUrls out)) (length out) w1")
  obtain m1 wd where m1: "merge sv (finalUrls out) w1 = (m1, wd)"
    by (cases "merge sv (finalUrls out) w1")
  obtain m2 we where m2: "merge sv (finalUrls out) wc = (m2, we)"
    by (cases "merge sv (finalUrls out) wc")
  from run ck cf m1 m2 n0 show ?thesis
    by (auto simp: handleExport_def Let_def split: if_splits)
qed

text \<open>
  Claim C3 against the code: a project of one scene whose stored clip fails the
  verification and whose recovery resolve returns nothing. No scene has a valid clip, so
  the claim has the export refused with no assembly call; the scene keeps its stale URL,
  the gate counts it, and the merge is called with that URL, without a confirmation.
\<close>

theorem export_keeps_stale_clip:
  "handleExport
     (steady_services (\<lambda>q. None) (\<lambda>u. False) True (Some ''/temp/job/final_short_job.mp4''))
     (Some \<lparr>project_id = ''p1'', title = ''Sea'',
            scenes = [scene_with ''sea'' (Some ''https://gone.example/a.mp4'')],
            timestamp = 0, finalVideoUrl = None\<rparr>)
     ((), [])
   = (Exported ''/temp/job/final_short_job.mp4'',
      Some \<lparr>project_id = ''p1'', title = ''Sea'',
            scenes = [scene_with ''sea'' (Some ''https://gone.example/a.mp4'')],
            timestamp = 0, finalVideoUrl = Some ''/temp/job/final_short_job.mp4''\<rparr>,
      ((), [Verify_call ''https://gone.example/a.mp4'', Resolve_call ''sea'',
            Merge_call [''https://gone.example/a.mp4'']]))"
  by (simp add: handleExport_def export_scene_def steady_services_def scene_with_def
      finalUrls_def Let_def)


theorem recovered_clip_accepted_unverified_witness:
  "\<exists>q new.
      handleExport
        (steady_services (\<lambda>q. Some ''https://new/b.mp4'') (\<lambda>u. u = ''https://ok/a.mp4'') True
           (Some ''/temp/job/final_short_job.mp4''))
        (Some (demo_project [scene_with ''sea'' (Some ''https://ok/a.mp4''),
                             scene_with ''sky'' (Some ''https://gone/b.mp4'')]))
        ((), [])
      = (Exported ''/temp/job/final_short_job.mp4'', Some q, ((), new))
      \<and> scenes q ! 1 = scene_with ''sky'' (Some ''https://new/b.mp4'')
      \<and> ''https://new/b.mp4'' \<in> set (finalUrls (scenes q))
      \<and> Merge_call [''https://ok/a.mp4'', ''https://new/b.mp4''] \<in> set new
      \<and> verified_urls new = [''https://ok/a.mp4'', ''https://gone/b.mp4'']"
proof -
  let ?sv = "steady_services (\<lambda>q. Some ''https://new/b.mp4'') (\<lambda>u. u = ''https://ok/a.mp4'') True
           (Some ''/temp/job/final_short_job.mp4'')"
  let ?a = "scene_with ''sea'' (Some ''https://ok/a.mp4'')"
  let ?b = "scene_with ''sky'' (Some ''https://gone/b.mp4'')"
  let ?p = "demo_project [?a, ?b]"
  let ?q = "(demo_project [?a, scene_with ''sky'' (Some ''https://new/b.mp4'')])
              \<lparr>finalVideoUrl := Some ''/temp/job/final_short_job.mp4''\<rparr>"
  let ?new = "[Verify_call ''https://ok/a.mp4'', Verify_call ''https://gone/b.mp4'',
               Resolve_call ''sky'', Merge_call [''https://ok/a.mp4'', ''https://new/b.mp4'']]"
  have sc: "scenes ?p = [?a] @ ?b # []" by (simp add: demo_project_def)
  have pre: "export_recheck ?sv [?a] ((), []) = ([?a], ((), [Verify_call ''https://ok/a.mp4'']))"
    by (simp add: export_scene_def steady_services_def scene_with_def)
  have bad: "\<not> (truthy (videoUrl ?b) \<and> fst (verify ?sv (the (videoUrl ?b)) ()))"
    by (simp add: steady_services_def scene_with_def)
  have rec: "resolve ?sv (imagePrompt ?b)
       (if truthy (videoUrl ?b) then snd (verify ?sv (the (videoUrl ?b)) ()) else ())
       = (Some ''https://new/b.mp4'', ())"
    by (simp add: steady_services_def)
  have u: "''https://new/b.mp4'' \<noteq> []" by simp
  have run: "handleExport ?sv (Some ?p) ((), []) =
      (Exported ''/temp/job/final_short_job.mp4'', Some ?q, ((), ?new))"
    by (simp add: handleExport_def export_scene_def steady_services_def scene_with_def
        demo_project_def finalUrls_def Let_def)
  from recovered_clip_accepted_unverified [OF sc pre bad rec u run]
  have "scenes ?q ! 1 = ?b\<lparr>videoUrl := Some ''https://new/b.mp4''\<rparr>
        \<and> ''https://new/b.mp4'' \<in> set (finalUrls (scenes ?q))
        \<and> verified_urls ?new = finalUrls (scenes ?p)"
    by simp
  then have "scenes ?q ! 1 = scene_with ''sky'' (Some ''https://new/b.mp4'')
        \<and> ''https://new/b.mp4'' \<in> set (finalUrls (scenes ?q))
        \<and> verified_urls ?new = [''https://ok/a.mp4'', ''https://gone/b.mp4'']"
    by (simp add: scene_with_def demo_project_def finalUrls_def)
  with run show ?thesis by (intro exI [of _ ?q] exI [of _ ?new]) simp
qed

section \<open>Scene video resolver: results\<close>

lemma promise_all_absent:
  "(\<forall>r \<in> set rs. r = Returned None) \<Longrightarrow> promise_all rs = Returned (replicate (length rs) None)"
  by (induction rs) auto

lemma first_non_null_absent: "first_non_null (replicate n None) = None"
  by (induction n) (auto simp: first_non_null_def)

lemma search_terms_exhausted:
  assumes "\<forall>a \<in> set ads. \<forall>t \<in> set ts. a t = Returned None"
  shows "fst (search_terms ads ts ivs) = Exhausted"
  using assms
proof (induction ts arbitrary: ivs)
  case Nil
  then show ?case by simp
next
  case (Cons t ts)
  have "promise_all (map (\<lambda>a. a t) ads) = Returned (replicate (length ads) None)"
    using Cons.prems promise_all_absent [of "map (\<lambda>a. a t) ads"] by simp
  with Cons show ?case by (simp add: Let_def first_non_null_absent)
qed

lemma search_terms_found: "search_terms ads ts ivs = (Found url, ivs') \<Longrightarrow> url \<noteq> []"
proof (induction ts arbitrary: ivs)
  case Nil
  then show ?case by simp
next
  case (Cons t ts)
  then show ?case
    by (auto simp: Let_def truthy_iff split: if_splits outcome.splits)
qed

lemma fallbacks_facts:
  "length fallbacks = 8" "distinct fallbacks" "[] \<notin> set fallbacks" "critical_fallback \<noteq> []"
  by (simp_all add: fallbacks_def critical_fallback_def)

lemma random_index_range:
  assumes "0 \<le> u" and "u < 1" and "0 < n"
  shows "0 \<le> random_index u n \<and> random_index u n < int n"
proof -
  have "0 \<le> u * of_nat n" using assms by simp
  moreover have "u * of_nat n < of_nat n" using assms by simp
  ultimately show ?thesis unfolding random_index_def
    by (simp add: floor_less_iff)
qed

lemma random_index_eq:
  "(random_index u n = int k) = (of_nat k \<le> u * of_nat n \<and> u * of_nat n < of_nat k + 1)"
  unfolding random_index_def by (simp add: floor_eq_iff)


lemma fallback_pick:
  assumes "0 \<le> u" and "u < 1"
  shows "\<exists>url. at_index fallbacks (random_index u (length fallbacks)) = Some url
      \<and> url \<noteq> [] \<and> url \<in> set fallbacks
      \<and> (\<forall>k < length fallbacks.
            (url = fallbacks ! k) = (of_nat k / 8 \<le> u \<and> u < (of_nat k + 1) / 8))"
proof -
  let ?i = "random_index u (length fallbacks)"
  have len: "length fallbacks = 8" by (rule fallbacks_facts)
  from random_index_range [OF assms, of "length fallbacks"] len
  have r: "0 \<le> ?i" "?i < int (length fallbacks)" by simp_all
  then have n: "nat ?i < length fallbacks" by simp
  have at: "at_index fallbacks ?i = Some (fallbacks ! nat ?i)" using r by (simp add: at_index_def)
  have mem: "fallbacks ! nat ?i \<in> set fallbacks" using n by (rule nth_mem)
  with fallbacks_facts(3) have ne: "fallbacks ! nat ?i \<noteq> []" by metis
  have uni: "(fallbacks ! nat ?i = fallbacks ! k) = (of_nat k / 8 \<le> u \<and> u < (of_nat k + 1) / 8)"
    if k: "k < length fallbacks" for k
  proof -
    have "(fallbacks ! nat ?i = fallbacks ! k) = (nat ?i = k)"
      using n k fallbacks_facts(2) by (simp add: nth_eq_iff_index_eq)
    also have "\<dots> = (?i = int k)" using r by auto
    also have "\<dots> = (of_nat k \<le> u * of_nat (length fallbacks)
                       \<and> u * of_nat (length fallbacks) < of_nat k + 1)"
      by (rule random_index_eq)
    also have "\<dots> = (of_nat k / 8 \<le> u \<and> u < (of_nat k + 1) / 8)"
      by (simp add: len field_simps)
    finally show ?thesis .
  qed
  from at ne mem uni show ?thesis by blast
qed

text \<open>
  Claim C1, amended: for every query that is not empty, and a draw \<open>u\<close> from 0
  (included) to 1 (excluded), the parallel route answers with a URL that is not empty,
  and \<open>generateSceneVideo\<close> returns it when its request is answered. When the browser
  started and every adapter returns no candidate for every variation, the URL is the
  member of the fallback pool at index \<open>floor (u * 8)\<close>: the pool has eight distinct
  members and member \<open>k\<close> is chosen exactly for the draws from \<open>k / 8\<close> to
  \<open>(k + 1) / 8\<close>, intervals of equal length. An empty query is answered with a 400
  error, for which \<open>generateSceneVideo\<close> returns null.
\<close>

theorem resolver_returns_url:
  assumes q: "query \<noteq> []" and u0: "0 \<le> u" and u1: "u < 1"
  shows "\<exists>url. fst (search_video ads ok u query) = Search_200 (Some url) \<and> url \<noteq> []
      \<and> generateSceneVideo (Fetched (fst (search_video ads ok u query))) = Some url
      \<and> (ok \<and> (\<forall>a \<in> set ads. \<forall>t \<in> set (variations query). a t = Returned None) \<longrightarrow>
           url \<in> set fallbacks
           \<and> at_index fallbacks (random_index u (length fallbacks)) = Some url
           \<and> (\<forall>k < length fallbacks.
                 (url = fallbacks ! k) = (of_nat k / 8 \<le> u \<and> u < (of_nat k + 1) / 8)))"
proof (cases ok)
  case False
  with q show ?thesis by (simp add: search_video_def fallbacks_facts)
next
  case True
  obtain e ivs where st: "search_terms ads (variations query) [] = (e, ivs)"
    by (cases "search_terms ads (variations query) []")
  show ?thesis
  proof (cases e)
    case (Found url)
    with st have "url \<noteq> []" using search_terms_found by blast
    moreover have "\<not> (\<forall>a \<in> set ads. \<forall>t \<in> set (variations query). a t = Returned None)"
      using search_terms_exhausted [of ads "variations query" "[]"] st Found by auto
    ultimately show ?thesis using q True st Found by (auto simp: search_video_def)
  next
    case Crashed
    moreover have "\<not> (\<forall>a \<in> set ads. \<forall>t \<in> set (variations query). a t = Returned None)"
      using search_terms_exhausted [of ads "variations query" "[]"] st Crashed by auto
    ultimately show ?thesis using q True st by (auto simp: search_video_def fallbacks_facts)
  next
    case Exhausted
    from fallback_pick [OF u0 u1] obtain url where
      p: "at_index fallbacks (random_index u (length fallbacks)) = Some url" "url \<noteq> []"
         "url \<in> set fallbacks"
         "\<forall>k < length fallbacks.
            (url = fallbacks ! k) = (of_nat k / 8 \<le> u \<and> u < (of_nat k + 1) / 8)"
      by blast
    with q True st Exhausted show ?thesis by (simp add: search_video_def)
  qed
qed

text \<open>
  Claim C1, as stated for every query, fails at the empty query: the route answers 400
  with an error and no URL, and \<open>generateSceneVideo\<close> returns null.
\<close>

theorem resolver_empty_query_counterexample:
  "fst (search_video_route (offline_web 0) []) = Search_400 ''Query required''
   \<and> generateSceneVideo (Fetched (fst (search_video_route (offline_web 0) []))) = None"
  by (simp add: search_video_route_def search_video_def)

lemma offline_sources:
  "a \<in> set (sources (offline_web u)) \<Longrightarrow> a t = Returned None"
  by (auto simp: sources_def offline_web_def tryPexels_def tryCoverr_def tryVidevo_def
      tryPixabay_def tryMixkit_def tryVidsplay_def tryMotionElements_def trySplitShire_def
      tryReddit_def)

theorem resolver_returns_url_witness:
  "fst (search_video_route (offline_web (1 / 2)) ''sea'') = Search_200 (Some (fallbacks ! 4))
   \<and> fallbacks ! 4 \<noteq> []"
proof -
  have q: "''sea'' \<noteq> []" by simp
  have u: "(0::rat) \<le> 1 / 2" "(1::rat) / 2 < 1" by simp_all
  have absent: "\<forall>a \<in> set (sources (offline_web (1 / 2))). \<forall>t \<in> set (variations ''sea'').
      a t = Returned None"
    using offline_sources by blast
  from resolver_returns_url [OF q u, of "sources (offline_web (1 / 2))" True] absent
  obtain url where w: "fst (search_video (sources (offline_web (1 / 2))) True (1 / 2) ''sea'')
        = Search_200 (Some url)" "url \<noteq> []"
      "\<forall>k < length fallbacks.
         (url = fallbacks ! k) = (of_nat k / 8 \<le> (1 / 2 :: rat) \<and> (1 / 2 :: rat) < (of_nat k + 1) / 8)"
    by blast
  from w(3) have "url = fallbacks ! 4" by (simp add: fallbacks_facts)
  with w(1,2) show ?thesis
    by (simp add: search_video_route_def offline_web_def)
qed

section \<open>Scene video resolver: selection among the adapters\<close>

lemma first_non_null_Cons [simp]:
  "first_non_null (r # rs) = (if r \<noteq> None then r else first_non_null rs)"
  by (auto simp: first_non_null_def)

lemma first_non_null_Nil [simp]: "first_non_null [] = None"
  by (simp add: first_non_null_def)

lemma first_non_null_iff:
  "(first_non_null rs = Some u) = (\<exists>k < length rs. rs ! k = Some u \<and> (\<forall>j < k. rs ! j = None))"
proof (induction rs)
  case Nil
  then show ?case by simp
next
  case (Cons r rs)
  show ?case
  proof (cases r)
    case None
    have "(\<exists>k < length (r # rs). (r # rs) ! k = Some u \<and> (\<forall>j < k. (r # rs) ! j = None))
          = (\<exists>k < length rs. rs ! k = Some u \<and> (\<forall>j < k. rs ! j = None))"
    proof
      assume "\<exists>k < length (r # rs). (r # rs) ! k = Some u \<and> (\<forall>j < k. (r # rs) ! j = None)"
      then obtain k where k: "k < length (r # rs)" "(r # rs) ! k = Some u"
        "\<forall>j < k. (r # rs) ! j = None" by blast
      with None obtain k' where k': "k = Suc k'" by (cases k) auto
      with k have "k' < length rs \<and> rs ! k' = Some u \<and> (\<forall>j < k'. rs ! j = None)" by auto
      then show "\<exists>k < length rs. rs ! k = Some u \<and> (\<forall>j < k. rs ! j = None)" by blast
    next
      assume "\<exists>k < length rs. rs ! k = Some u \<and> (\<forall>j < k. rs ! j = None)"
      then obtain k where k: "k < length rs" "rs ! k = Some u" "\<forall>j < k. rs ! j = None" by blast
      have "\<forall>j < Suc k. (r # rs) ! j = None"
      proof (intro allI impI)
        fix j assume "j < Suc k"
        then show "(r # rs) ! j = None" using None k(3) by (cases j) auto
      qed
      with k have "Suc k < length (r # rs) \<and> (r # rs) ! Suc k = Some u
          \<and> (\<forall>j < Suc k. (r # rs) ! j = None)" by simp
      then show "\<exists>k < length (r # rs). (r # rs) ! k = Some u \<and> (\<forall>j < k. (r # rs) ! j = None)"
        by blast
    qed
    with None Cons.IH show ?thesis by simp
  next
    case (Some v)
    have "(\<exists>k < length (r # rs). (r # rs) ! k = Some u \<and> (\<forall>j < k. (r # rs) ! j = None)) = (v = u)"
    proof
      assume "\<exists>k < length (r # rs). (r # rs) ! k = Some u \<and> (\<forall>j < k. (r # rs) ! j = None)"
      then obtain k where k: "(r # rs) ! k = Some u" "\<forall>j < k. (r # rs) ! j = None" by blast
      with Some have "k = 0" by (cases k) auto
      with k Some show "v = u" by simp
    next
      assume "v = u"
      with Some have "0 < length (r # rs) \<and> (r # rs) ! 0 = Some u
          \<and> (\<forall>j < 0. (r # rs) ! j = None)" by simp
      then show "\<exists>k < length (r # rs). (r # rs) ! k = Some u \<and> (\<forall>j < k. (r # rs) ! j = None)"
        by blast
    qed
    with Some show ?thesis by simp
  qed
qed

lemma try_in_turn_truthy: "truthy url \<Longrightarrow> try_in_turn ads t k url ivs = (Returned url, ivs)"
  by (cases ads) auto

lemma all_invocations_simps [simp]:
  "all_invocations n [] = []"
  "all_invocations n (s # ss) = map (\<lambda>j. (j, s)) [0 ..< n] @ all_invocations n ss"
  "all_invocations n (xs @ ys) = all_invocations n xs @ all_invocations n ys"
  by (simp_all add: all_invocations_def)

lemma promise_all_returned:
  "(\<forall>a \<in> set ads. a t \<noteq> Raised) \<Longrightarrow>
     promise_all (map (\<lambda>a. a t) ads) =
       Returned (map (\<lambda>a. case a t of Raised \<Rightarrow> None | Returned r \<Rightarrow> r) ads)"
proof (induction ads)
  case Nil
  then show ?case by simp
next
  case (Cons a ads)
  then show ?case by (cases "a t") auto
qed

lemma promise_all_raised:
  "(\<exists>a \<in> set ads. a t = Raised) \<Longrightarrow> promise_all (map (\<lambda>a. a t) ads) = Raised"
proof (induction ads)
  case Nil
  then show ?case by simp
next
  case (Cons a ads)
  then show ?case by (cases "a t") (auto split: outcome.splits)
qed

lemma search_terms_absent_prefix:
  assumes "\<forall>a \<in> set ads. \<forall>s \<in> set before. a s = Returned None"
  shows "search_terms ads (before @ rest) ivs =
           search_terms ads rest (ivs @ all_invocations (length ads) (filter (\<lambda>s. s \<noteq> []) before))"
  using assms
proof (induction before arbitrary: ivs)
  case Nil
  then show ?case by simp
next
  case (Cons s before)
  have "promise_all (map (\<lambda>a. a s) ads) = Returned (replicate (length ads) None)"
    using Cons.prems promise_all_absent [of "map (\<lambda>a. a s) ads"] by simp
  with Cons show ?case by (simp add: Let_def first_non_null_absent)
qed

lemma search_terms_first_candidate:
  assumes t: "t \<noteq> []" and k: "k < length ads" and cand: "(ads ! k) t = Returned (Some url)"
    and url: "url \<noteq> []" and first: "\<forall>j < k. (ads ! j) t = Returned None"
    and nr: "\<forall>a \<in> set ads. a t \<noteq> Raised"
  shows "search_terms ads (t # rest) ivs = (Found url, ivs @ map (\<lambda>j. (j, t)) [0 ..< length ads])"
proof -
  let ?rs = "map (\<lambda>a. case a t of Raised \<Rightarrow> None | Returned r \<Rightarrow> r) ads"
  have "k < length ?rs \<and> ?rs ! k = Some url \<and> (\<forall>j < k. ?rs ! j = None)"
    using k cand first by simp
  then have "first_non_null ?rs = Some url" unfolding first_non_null_iff by blast
  with t url promise_all_returned [OF nr] show ?thesis by (simp add: Let_def)
qed

lemma search_terms_rejected:
  assumes "t \<noteq> []" and "\<exists>a \<in> set ads. a t = Raised"
  shows "search_terms ads (t # rest) ivs = (Crashed, ivs @ map (\<lambda>j. (j, t)) [0 ..< length ads])"
  using assms promise_all_raised [of ads t] by (simp add: Let_def)

lemma try_in_turn_absent:
  "(\<forall>a \<in> set ads. a s = Returned None) \<Longrightarrow>
     try_in_turn ads s k None ivs = (Returned None, ivs @ map (\<lambda>j. (j, s)) [k ..< k + length ads])"
proof (induction ads arbitrary: k ivs)
  case Nil
  then show ?case by simp
next
  case (Cons a ads)
  then show ?case by (simp add: upt_shift del: upt_Suc)
qed

lemma search_terms_seq_absent_prefix:
  assumes "\<forall>a \<in> set ads. \<forall>s \<in> set before. a s = Returned None"
  shows "search_terms_seq ads (before @ rest) ivs =
           search_terms_seq ads rest
             (ivs @ all_invocations (length ads) (filter (\<lambda>s. s \<noteq> []) before))"
  using assms
proof (induction before arbitrary: ivs)
  case Nil
  then show ?case by simp
next
  case (Cons s before)
  then have "try_in_turn ads s 0 None ivs = (Returned None, ivs @ map (\<lambda>j. (j, s)) [0 ..< length ads])"
    using try_in_turn_absent [of ads s 0 ivs] by simp
  with Cons show ?case by simp
qed

lemma try_in_turn_first_candidate:
  assumes "k < length ads" and "(ads ! k) t = Returned (Some url)" and "url \<noteq> []"
    and "\<forall>j < k. (ads ! j) t = Returned None"
  shows "try_in_turn ads t k0 None ivs =
           (Returned (Some url), ivs @ map (\<lambda>j. (j, t)) [k0 ..< Suc (k0 + k)])"
  using assms
proof (induction ads arbitrary: k k0 ivs)
  case Nil
  then show ?case by simp
next
  case (Cons a ads)
  show ?case
  proof (cases k)
    case 0
    with Cons.prems have a: "a t = Returned (Some url)" by simp
    from Cons.prems(3) have "truthy (Some url)" by simp
    from try_in_turn_truthy [OF this] a 0 show ?thesis by simp
  next
    case (Suc k')
    with Cons.prems have a: "a t = Returned None" by auto
    from Suc Cons.prems have "k' < length ads" "(ads ! k') t = Returned (Some url)"
      "\<forall>j < k'. (ads ! j) t = Returned None" by auto
    from Cons.IH [OF this(1,2) Cons.prems(3) this(3), of "Suc k0" "ivs @ [(k0, t)]"] a Suc
    show ?thesis by (simp add: upt_conv_Cons del: upt_Suc)
  qed
qed

lemma search_terms_seq_first_candidate:
  assumes "t \<noteq> []" and "k < length ads" and "(ads ! k) t = Returned (Some url)" and "url \<noteq> []"
    and "\<forall>j < k. (ads ! j) t = Returned None"
  shows "search_terms_seq ads (t # rest) ivs = (Found url, ivs @ map (\<lambda>j. (j, t)) [0 ..< Suc k])"
  using assms try_in_turn_first_candidate [OF assms(2-5), of 0 ivs] by simp


text \<open>
  Claim C2, amended: take a query, one of its variations \<open>t\<close> before which no adapter
  returned a candidate, and an adapter at position \<open>k\<close> of the list that returns a
  candidate (a non-empty URL) for \<open>t\<close> while every adapter listed before it returns
  none. In the parallel variant every adapter of the list is invoked on \<open>t\<close> (and on
  each variation before it) and all are awaited; provided none of them rejects, the
  reply is the candidate of adapter \<open>k\<close>, whatever the adapters listed after it return
  and whichever finishes first, and no later variation is tried. If an adapter rejects
  on \<open>t\<close> (its page cannot be opened, which is outside its \<open>try\<close>), the reply is the
  fixed fallback clip instead. In the sequential variant the reply is the candidate of
  adapter \<open>k\<close> too, no later variation is tried, and on \<open>t\<close> only the adapters up to
  \<open>k\<close> are invoked. That the parallel invocations overlap in time is not modelled.
\<close>

theorem adapter_selection_by_priority:
  assumes q: "query \<noteq> []" and t: "t \<noteq> []"
    and k: "k < length ads" and cand: "(ads ! k) t = Returned (Some url)" and url: "url \<noteq> []"
    and first: "\<forall>j < k. (ads ! j) t = Returned None"
  shows "(variations query = before @ t # after
          \<and> (\<forall>a \<in> set ads. \<forall>s \<in> set before. a s = Returned None)
          \<and> (\<forall>a \<in> set ads. a t \<noteq> Raised)
          \<longrightarrow> search_video ads True u query =
                (Search_200 (Some url),
                 all_invocations (length ads) (filter (\<lambda>s. s \<noteq> []) before @ [t])))
       \<and> (variations query = before @ t # after
          \<and> (\<forall>a \<in> set ads. \<forall>s \<in> set before. a s = Returned None)
          \<and> (\<exists>a \<in> set ads. a t = Raised)
          \<longrightarrow> search_video ads True u query =
                (Search_200 (Some critical_fallback),
                 all_invocations (length ads) (filter (\<lambda>s. s \<noteq> []) before @ [t])))
       \<and> (variations_seq query = before @ t # after
          \<and> (\<forall>a \<in> set ads. \<forall>s \<in> set before. a s = Returned None)
          \<longrightarrow> search_video_seq ads True query =
                (Search_200 (Some url),
                 all_invocations (length ads) (filter (\<lambda>s. s \<noteq> []) before)
                 @ map (\<lambda>j. (j, t)) [0 ..< Suc k]))"
proof (intro conjI impI)
  assume h: "variations query = before @ t # after
          \<and> (\<forall>a \<in> set ads. \<forall>s \<in> set before. a s = Returned None)
          \<and> (\<forall>a \<in> set ads. a t \<noteq> Raised)"
  then have "search_terms ads (variations query) [] =
      (Found url, all_invocations (length ads) (filter (\<lambda>s. s \<noteq> []) before)
                  @ map (\<lambda>j. (j, t)) [0 ..< length ads])"
    using search_terms_absent_prefix [of ads before "t # after" "[]"]
      search_terms_first_candidate [OF t k cand url first]
    by simp
  with q show "search_video ads True u query =
                (Search_200 (Some url),
                 all_invocations (length ads) (filter (\<lambda>s. s \<noteq> []) before @ [t]))"
    by (simp add: search_video_def)
next
  assume h: "variations query = before @ t # after
          \<and> (\<forall>a \<in> set ads. \<forall>s \<in> set before. a s = Returned None)
          \<and> (\<exists>a \<in> set ads. a t = Raised)"
  then have "search_terms ads (variations query) [] =
      (Crashed, all_invocations (length ads) (filter (\<lambda>s. s \<noteq> []) before)
                  @ map (\<lambda>j. (j, t)) [0 ..< length ads])"
    using search_terms_absent_prefix [of ads before "t # after" "[]"]
      search_terms_rejected [OF t, of ads]
    by simp
  with q show "search_video ads True u query =
                (Search_200 (Some critical_fallback),
                 all_invocations (length ads) (filter (\<lambda>s. s \<noteq> []) before @ [t]))"
    by (simp add: search_video_def)
next
  assume h: "variations_seq query = before @ t # after
          \<and> (\<forall>a \<in> set ads. \<forall>s \<in> set before. a s = Returned None)"
  then have "search_terms_seq ads (variations_seq query) [] =
      (Found url, all_invocations (length ads) (filter (\<lambda>s. s \<noteq> []) before)
                  @ map (\<lambda>j. (j, t)) [0 ..< Suc k])"
    using search_terms_seq_absent_prefix [of ads before "t # after" "[]"]
      search_terms_seq_first_candidate [OF t k cand url first]
    by simp
  with q show "search_video_seq ads True query =
                (Search_200 (Some url),
                 all_invocations (length ads) (filter (\<lambda>s. s \<noteq> []) before)
                 @ map (\<lambda>j. (j, t)) [0 ..< Suc k])"
    by (simp add: search_video_seq_def)
qed

text \<open>
  Claim C2, as stated, fails twice. On the sequential variant, with two adapters that both
  return a candidate, only the first is invoked. On the parallel variant, when Coverr is
  the one adapter that returns a candidate and the page of the Reddit adapter cannot be
  opened, the reply is the fixed fallback clip and not the candidate; with that page
  opening, the reply is the candidate.
\<close>

theorem adapter_invocation_counterexample:
  "search_video_seq [mocked (\<lambda>t. Some ''a''), mocked (\<lambda>t. Some ''b'')] True ''q''
     = (Search_200 (Some ''a''), [(0, ''q'')])
   \<and> tryCoverr (coverr_web False) ''q'' = Returned (Some ''https://cdn.coverr.co/sea.mp4'')
   \<and> fst (search_video_route (coverr_web False) ''q'') = Search_200 (Some critical_fallback)
   \<and> fst (search_video_route (coverr_web True) ''q'')
       = Search_200 (Some ''https://cdn.coverr.co/sea.mp4'')"
proof -
  have 1: "search_video_seq [mocked (\<lambda>t. Some ''a''), mocked (\<lambda>t. Some ''b'')] True ''q''
     = (Search_200 (Some ''a''), [(0, ''q'')])"
    by (simp add: search_video_seq_def variations_seq_def mocked_def)
  have w: "isWatermarked ''https://cdn.coverr.co/sea.mp4'' = False" by code_simp
  have c: "tryCoverr (coverr_web b) ''q'' = Returned (Some ''https://cdn.coverr.co/sea.mp4'')" for b
    by (simp add: tryCoverr_def coverr_web_def offline_web_def w)
  have o: "tryPexels (coverr_web b) s = Returned None" "tryVidevo (coverr_web b) s = Returned None"
    "tryPixabay (coverr_web b) s = Returned None" "tryMixkit (coverr_web b) s = Returned None"
    "tryVidsplay (coverr_web b) s = Returned None"
    "tryMotionElements (coverr_web b) s = Returned None"
    "trySplitShire (coverr_web b) s = Returned None" for b s
    by (simp_all add: coverr_web_def offline_web_def tryPexels_def tryVidevo_def tryPixabay_def
        tryMixkit_def tryVidsplay_def tryMotionElements_def trySplitShire_def)
  have r: "tryReddit (coverr_web False) s = Raised" "tryReddit (coverr_web True) s = Returned None"
    for s
    by (simp_all add: coverr_web_def offline_web_def tryReddit_def)
  have bo: "browser_ok (coverr_web b) = True" for b
    by (simp add: coverr_web_def offline_web_def)
  have 3: "fst (search_video_route (coverr_web False) ''q'') = Search_200 (Some critical_fallback)"
    by (simp add: search_video_route_def search_video_def variations_def sources_def c o r bo
        Let_def)
  have 4: "fst (search_video_route (coverr_web True) ''q'')
       = Search_200 (Some ''https://cdn.coverr.co/sea.mp4'')"
    by (simp add: search_video_route_def search_video_def variations_def sources_def c o r bo
        Let_def first_non_null_def)
  from 1 c 3 4 show ?thesis by blast
qed

theorem adapter_selection_by_priority_witness:
  "search_video (map mocked [\<lambda>t. None, \<lambda>t. Some ''b'', \<lambda>t. Some ''c'']) True 0 ''q''
     = (Search_200 (Some ''b''), [(0, ''q''), (1, ''q''), (2, ''q'')])
   \<and> search_video_seq (map mocked [\<lambda>t. None, \<lambda>t. Some ''b'', \<lambda>t. Some ''c'']) True ''q''
     = (Search_200 (Some ''b''), [(0, ''q''), (1, ''q'')])
   \<and> search_video [mocked (\<lambda>t. None), mocked (\<lambda>t. Some ''b''), (\<lambda>t. Raised)] True 0 ''q''
     = (Search_200 (Some critical_fallback), [(0, ''q''), (1, ''q''), (2, ''q'')])"
proof -
  let ?ads = "map mocked [\<lambda>t. None, \<lambda>t. Some ''b'', \<lambda>t. Some ''c'']"
  let ?bad = "[mocked (\<lambda>t. None), mocked (\<lambda>t. Some ''b''), (\<lambda>t. Raised)]"
  have q: "''q'' \<noteq> []" by simp
  have k: "1 < length ?ads" "(?ads ! 1) ''q'' = Returned (Some ''b'')" "''b'' \<noteq> []"
    "\<forall>j < 1. (?ads ! j) ''q'' = Returned None"
    by (simp_all add: mocked_def)
  have kb: "1 < length ?bad" "(?bad ! 1) ''q'' = Returned (Some ''b'')"
    "\<forall>j < 1. (?bad ! j) ''q'' = Returned None"
    by (simp_all add: mocked_def)
  have v: "variations ''q'' = [] @ ''q'' # [''q cinematic'', ''q'']" by (simp add: variations_def)
  have vs: "variations_seq ''q'' = [] @ ''q'' # [''q'', ''q vertical'', ''aesthetic q'']"
    by (simp add: variations_seq_def first_word_def)
  have nr: "\<forall>a \<in> set ?ads. a ''q'' \<noteq> Raised" by (simp add: mocked_def)
  have rj: "\<exists>a \<in> set ?bad. a ''q'' = Raised" by simp
  from adapter_selection_by_priority [OF q q k, of "[]" "[''q cinematic'', ''q'']" 0] v nr
  have 1: "search_video ?ads True 0 ''q''
     = (Search_200 (Some ''b''), [(0, ''q''), (1, ''q''), (2, ''q'')])"
    by (simp add: upt_conv_Cons del: upt_Suc)
  from adapter_selection_by_priority [OF q q k, of "[]" "[''q'', ''q vertical'', ''aesthetic q'']"] vs
  have 2: "search_video_seq ?ads True ''q''
     = (Search_200 (Some ''b''), [(0, ''q''), (1, ''q'')])"
    by (simp add: upt_conv_Cons del: upt_Suc)
  from adapter_selection_by_priority [OF q q kb(1,2) k(3) kb(3), of "[]" "[''q cinematic'', ''q'']" 0]
    v rj
  have 3: "search_video ?bad True 0 ''q''
     = (Search_200 (Some critical_fallback), [(0, ''q''), (1, ''q''), (2, ''q'')])"
    by (simp add: upt_conv_Cons del: upt_Suc)
  from 1 2 3 show ?thesis by blast
qed

end
